theory Spec2Isabelle
  imports Complex_Main
begin

section \<open>Binary64 arithmetic\<close>

text \<open>
  Every number in \<^verbatim>\<open>slicer.cpp\<close> is a C++ \<^verbatim>\<open>double\<close>.  A double is modelled as a
  finite value, an infinity or NaN; a finite double is the real number it denotes.  Each
  arithmetic operation computes the exact real result and rounds it to the nearest
  binary64 number, ties to even, as IEEE 754 prescribes and as the \<^verbatim>\<open>f64\<close> instructions of
  WebAssembly do (there is no fused multiply-add); division by zero and the invalid
  operations give the infinities and NaN.  The two zeros of the format are identified:
  \<^verbatim>\<open>-0.0\<close> is \<open>Fin 0\<close>, so a division by zero takes its sign from the numerator alone.
  The sign of a zero shows only when the zero is a divisor; in \<^verbatim>\<open>slicer.cpp\<close> a divisor is
  a negative zero only for mesh coordinates \<^verbatim>\<open>-0.0\<close> and for an infill density that is
  \<^verbatim>\<open>-0.0\<close> or negative and so small that a hundredth of it underflows.
\<close>

datatype double = Fin real | PInf | NInf | NaN

text \<open>\<open>ilog2 a\<close> is the binary exponent of a positive real: \<open>2 powi ilog2 a \<le> a < 2 powi (ilog2 a + 1)\<close>.\<close>

function ilog2 :: "real \<Rightarrow> int" where
  "ilog2 a = (if a \<le> 0 then 0
              else if 2 \<le> a then ilog2 (a / 2) + 1
              else if a < 1 then ilog2 (a * 2) - 1
              else 0)"
  by pat_completeness auto
termination
proof (relation "measure (\<lambda>a. nat \<bar>\<lfloor>log 2 a\<rfloor>\<bar>)")
  show "wf (measure (\<lambda>a. nat \<bar>\<lfloor>log 2 a\<rfloor>\<bar>))" by simp
next
  fix a :: real
  assume a: "\<not> a \<le> 0" "2 \<le> a"
  have e: "log 2 (a / 2) = log 2 a - 1" using a by (simp add: log_divide)
  have "1 \<le> log 2 a" using a by (simp add: le_log_iff)
  then have "1 \<le> \<lfloor>log 2 a\<rfloor>" by linarith
  then have "nat \<bar>\<lfloor>log 2 (a / 2)\<rfloor>\<bar> < nat \<bar>\<lfloor>log 2 a\<rfloor>\<bar>"
    unfolding e by linarith
  then show "(a / 2, a) \<in> measure (\<lambda>a. nat \<bar>\<lfloor>log 2 a\<rfloor>\<bar>)" by simp
next
  fix a :: real
  assume a: "\<not> a \<le> 0" "\<not> 2 \<le> a" "a < 1"
  have e: "log 2 (a * 2) = log 2 a + 1" using a by (simp add: log_mult)
  have "log 2 a < 0" using a by simp
  then have "\<lfloor>log 2 a\<rfloor> \<le> - 1" by linarith
  then have "nat \<bar>\<lfloor>log 2 (a * 2)\<rfloor>\<bar> < nat \<bar>\<lfloor>log 2 a\<rfloor>\<bar>"
    unfolding e by linarith
  then show "(a * 2, a) \<in> measure (\<lambda>a. nat \<bar>\<lfloor>log 2 a\<rfloor>\<bar>)" by simp
qed

declare ilog2.simps [simp del]

text \<open>Rounding a real to the nearest integer, ties to the even one.\<close>

definition rne :: "real \<Rightarrow> int" where
  "rne y = (let f = \<lfloor>y\<rfloor>; d = y - of_int f
            in if d < 1 / 2 then f
               else if 1 / 2 < d then f + 1
               else if even f then f else f + 1)"

text \<open>
  The spacing of the doubles around a positive magnitude: 52 fraction bits below the
  exponent, and the subnormal spacing \<open>2 powi - 1074\<close> below the smallest normal number.
\<close>

definition ulp_of :: "real \<Rightarrow> real" where
  "ulp_of a = 2 powi (max (ilog2 a) (- 1022) - 52)"

definition rmag :: "real \<Rightarrow> real" where
  "rmag a = of_int (rne (a / ulp_of a)) * ulp_of a"

text \<open>Round to nearest, ties to even; a magnitude that rounds to \<open>2 ^ 1024\<close> overflows.\<close>

definition rnd :: "real \<Rightarrow> double" where
  "rnd x = (if x = 0 then Fin 0
            else let r = rmag \<bar>x\<bar>
                 in if r < 2 ^ 1024 then Fin (sgn x * r)
                    else if 0 < x then PInf else NInf)"

text \<open>A decimal literal of the source denotes the double nearest to it.\<close>

definition lit :: "real \<Rightarrow> double" where
  "lit r = rnd r"

fun dneg :: "double \<Rightarrow> double" where
  "dneg (Fin a) = Fin (- a)"
| "dneg PInf = NInf"
| "dneg NInf = PInf"
| "dneg NaN = NaN"

fun dadd :: "double \<Rightarrow> double \<Rightarrow> double" where
  "dadd NaN _ = NaN"
| "dadd _ NaN = NaN"
| "dadd PInf NInf = NaN"
| "dadd NInf PInf = NaN"
| "dadd PInf _ = PInf"
| "dadd _ PInf = PInf"
| "dadd NInf _ = NInf"
| "dadd _ NInf = NInf"
| "dadd (Fin a) (Fin b) = rnd (a + b)"

definition dsub :: "double \<Rightarrow> double \<Rightarrow> double" where
  "dsub a b = dadd a (dneg b)"

fun dmul :: "double \<Rightarrow> double \<Rightarrow> double" where
  "dmul NaN _ = NaN"
| "dmul _ NaN = NaN"
| "dmul (Fin a) (Fin b) = rnd (a * b)"
| "dmul (Fin a) PInf = (if a = 0 then NaN else if 0 < a then PInf else NInf)"
| "dmul (Fin a) NInf = (if a = 0 then NaN else if 0 < a then NInf else PInf)"
| "dmul PInf (Fin b) = (if b = 0 then NaN else if 0 < b then PInf else NInf)"
| "dmul NInf (Fin b) = (if b = 0 then NaN else if 0 < b then NInf else PInf)"
| "dmul PInf PInf = PInf"
| "dmul PInf NInf = NInf"
| "dmul NInf PInf = NInf"
| "dmul NInf NInf = PInf"

fun ddiv :: "double \<Rightarrow> double \<Rightarrow> double" where
  "ddiv NaN _ = NaN"
| "ddiv _ NaN = NaN"
| "ddiv (Fin a) (Fin b) =
     (if b = 0 then (if a = 0 then NaN else if 0 < a then PInf else NInf)
      else rnd (a / b))"
| "ddiv (Fin a) PInf = Fin 0"
| "ddiv (Fin a) NInf = Fin 0"
| "ddiv PInf (Fin b) = (if 0 \<le> b then PInf else NInf)"
| "ddiv NInf (Fin b) = (if 0 \<le> b then NInf else PInf)"
| "ddiv PInf PInf = NaN"
| "ddiv PInf NInf = NaN"
| "ddiv NInf PInf = NaN"
| "ddiv NInf NInf = NaN"

text \<open>The comparisons \<^verbatim>\<open><=\<close> and \<^verbatim>\<open><\<close>: false whenever an operand is NaN.\<close>

fun dle :: "double \<Rightarrow> double \<Rightarrow> bool" where
  "dle NaN _ = False"
| "dle _ NaN = False"
| "dle NInf _ = True"
| "dle _ PInf = True"
| "dle (Fin a) (Fin b) = (a \<le> b)"
| "dle PInf _ = False"
| "dle _ NInf = False"

fun dlt :: "double \<Rightarrow> double \<Rightarrow> bool" where
  "dlt NaN _ = False"
| "dlt _ NaN = False"
| "dlt PInf _ = False"
| "dlt _ NInf = False"
| "dlt (Fin a) (Fin b) = (a < b)"
| "dlt NInf _ = True"
| "dlt _ PInf = True"

text \<open>\<^verbatim>\<open>std::min(a, b)\<close> is \<^verbatim>\<open>(b < a) ? b : a\<close> and \<^verbatim>\<open>std::max(a, b)\<close> is \<^verbatim>\<open>(a < b) ? b : a\<close>.\<close>

definition dmin :: "double \<Rightarrow> double \<Rightarrow> double" where
  "dmin a b = (if dlt b a then b else a)"

definition dmax :: "double \<Rightarrow> double \<Rightarrow> double" where
  "dmax a b = (if dlt a b then b else a)"

section \<open>The slicer\<close>

subsection \<open>Data\<close>

datatype Vector3 = Vector3 (vx: double) (vy: double) (vz: double)

datatype Triangle = Triangle (v1: Vector3) (v2: Vector3) (v3: Vector3)

record Layer =
  height :: double
  contours :: "Vector3 list list"
  infill :: "Vector3 list list"

text \<open>The three data members of \<^verbatim>\<open>class SimpleSlicer\<close>.\<close>

record SimpleSlicer =
  triangles :: "Triangle list"
  layerHeight :: double
  infillDensity :: double

text \<open>The constructor: no triangles, layer height 0.2, infill density 20.\<close>

definition new_SimpleSlicer :: SimpleSlicer where
  "new_SimpleSlicer = \<lparr>triangles = [], layerHeight = lit (2 / 10), infillDensity = lit 20\<rparr>"

definition setLayerHeight :: "double \<Rightarrow> SimpleSlicer \<Rightarrow> SimpleSlicer" where
  "setLayerHeight h s = s\<lparr>layerHeight := h\<rparr>"

definition setInfillDensity :: "double \<Rightarrow> SimpleSlicer \<Rightarrow> SimpleSlicer" where
  "setInfillDensity d s = s\<lparr>infillDensity := d\<rparr>"

subsection \<open>\<^verbatim>\<open>parseSTL\<close> and \<^verbatim>\<open>createTestCube\<close>\<close>

definition createTestCube :: "SimpleSlicer \<Rightarrow> SimpleSlicer" where
  "createTestCube s =
    (let size = lit 10;
         lo = ddiv (dneg size) (lit 2);
         hi = ddiv size (lit 2);
         p1 = Vector3 lo lo lo;
         p2 = Vector3 hi lo lo;
         p3 = Vector3 hi hi lo;
         p4 = Vector3 lo hi lo;
         p5 = Vector3 lo lo hi;
         p6 = Vector3 hi lo hi;
         p7 = Vector3 hi hi hi;
         p8 = Vector3 lo hi hi
     in s\<lparr>triangles :=
          [Triangle p1 p2 p3, Triangle p1 p3 p4,
           Triangle p5 p6 p7, Triangle p5 p7 p8,
           Triangle p1 p2 p6, Triangle p1 p6 p5,
           Triangle p3 p4 p8, Triangle p3 p8 p7,
           Triangle p2 p3 p7, Triangle p2 p7 p6,
           Triangle p1 p4 p8, Triangle p1 p8 p5]\<rparr>)"

text \<open>The input string is not read: the triangle list is cleared and the cube installed.\<close>

definition parseSTL :: "string \<Rightarrow> SimpleSlicer \<Rightarrow> bool \<times> SimpleSlicer" where
  "parseSTL stlData s = (True, createTestCube (s\<lparr>triangles := []\<rparr>))"

subsection \<open>\<^verbatim>\<open>getBoundingBox\<close>\<close>

type_synonym bounds = "double \<times> double \<times> double \<times> double \<times> double \<times> double"

text \<open>One pass of the loop over the triangles.\<close>

fun bbox_step :: "bounds \<Rightarrow> Triangle \<Rightarrow> bounds" where
  "bbox_step (minX, minY, minZ, maxX, maxY, maxZ) tri =
    (dmin minX (dmin (vx (v1 tri)) (dmin (vx (v2 tri)) (vx (v3 tri)))),
     dmin minY (dmin (vy (v1 tri)) (dmin (vy (v2 tri)) (vy (v3 tri)))),
     dmin minZ (dmin (vz (v1 tri)) (dmin (vz (v2 tri)) (vz (v3 tri)))),
     dmax maxX (dmax (vx (v1 tri)) (dmax (vx (v2 tri)) (vx (v3 tri)))),
     dmax maxY (dmax (vy (v1 tri)) (dmax (vy (v2 tri)) (vy (v3 tri)))),
     dmax maxZ (dmax (vz (v1 tri)) (dmax (vz (v2 tri)) (vz (v3 tri)))))"

definition getBoundingBox :: "SimpleSlicer \<Rightarrow> double list" where
  "getBoundingBox s =
    (case triangles s of
       [] \<Rightarrow> [lit 0, lit 0, lit 0, lit 0, lit 0, lit 0]
     | t0 # _ \<Rightarrow>
        (case foldl bbox_step
                (vx (v1 t0), vy (v1 t0), vz (v1 t0), vx (v1 t0), vy (v1 t0), vz (v1 t0))
                (triangles s) of
           (minX, minY, minZ, maxX, maxY, maxZ) \<Rightarrow> [minX, minY, minZ, maxX, maxY, maxZ]))"

subsection \<open>\<^verbatim>\<open>calculateIntersection\<close> and \<^verbatim>\<open>generateInfill\<close>\<close>

definition calculateIntersection :: "Triangle \<Rightarrow> double \<Rightarrow> Vector3" where
  "calculateIntersection tri z =
    (let t1 = ddiv (dsub z (vz (v1 tri))) (dsub (vz (v2 tri)) (vz (v1 tri)));
         t2 = ddiv (dsub z (vz (v2 tri))) (dsub (vz (v3 tri)) (vz (v2 tri)));
         p1 = Vector3 (dadd (vx (v1 tri)) (dmul t1 (dsub (vx (v2 tri)) (vx (v1 tri)))))
                      (dadd (vy (v1 tri)) (dmul t1 (dsub (vy (v2 tri)) (vy (v1 tri)))))
                      z;
         p2 = Vector3 (dadd (vx (v2 tri)) (dmul t2 (dsub (vx (v3 tri)) (vx (v2 tri)))))
                      (dadd (vy (v2 tri)) (dmul t2 (dsub (vy (v3 tri)) (vy (v2 tri)))))
                      z
     in Vector3 (ddiv (dadd (vx p1) (vx p2)) (lit 2)) (ddiv (dadd (vy p1) (vy p2)) (lit 2)) z)"

text \<open>
  The loop \<^verbatim>\<open>for (double x = minX; x <= maxX; x += spacing / density)\<close>.  It need not end
  (a negative step never passes \<open>maxX\<close>), so it is a partial function: \<open>None\<close> is a loop
  that does not return.
\<close>

partial_function (option) infill_loop ::
  "double \<Rightarrow> double \<Rightarrow> double \<Rightarrow> double \<Rightarrow> double \<Rightarrow> double \<Rightarrow> Vector3 list list
     \<Rightarrow> Vector3 list list option" where
  "infill_loop x maxX step minY maxY z lines =
    (if dle x maxX
     then infill_loop (dadd x step) maxX step minY maxY z
            (lines @ [[Vector3 x minY z, Vector3 x maxY z]])
     else Some lines)"

definition generateInfill ::
  "SimpleSlicer \<Rightarrow> Vector3 list \<Rightarrow> double \<Rightarrow> Vector3 list list option" where
  "generateInfill s contour z =
    (let bbox = getBoundingBox s;
         minX = bbox ! 0; maxX = bbox ! 3;
         minY = bbox ! 1; maxY = bbox ! 4;
         spacing = lit 2;
         density = ddiv (infillDensity s) (lit 100)
     in infill_loop minX maxX (ddiv spacing density) minY maxY z [])"

subsection \<open>\<^verbatim>\<open>slice\<close>\<close>

text \<open>The test of the \<^verbatim>\<open>if\<close> in the scan over the triangles.\<close>

definition crosses :: "Triangle \<Rightarrow> double \<Rightarrow> bool" where
  "crosses tri z \<longleftrightarrow>
     (dle (vz (v1 tri)) z \<and> dle z (vz (v2 tri))) \<or>
     (dle (vz (v2 tri)) z \<and> dle z (vz (v3 tri))) \<or>
     (dle (vz (v3 tri)) z \<and> dle z (vz (v1 tri)))"

text \<open>The inner loop: the intersection points, in the order of the triangles.\<close>

fun scan :: "Triangle list \<Rightarrow> double \<Rightarrow> Vector3 list \<Rightarrow> Vector3 list" where
  "scan [] z intersections = intersections"
| "scan (tri # tris) z intersections =
     scan tris z (if crosses tri z then intersections @ [calculateIntersection tri z]
                  else intersections)"

text \<open>The body of the outer loop: the layer of one plane height.\<close>

definition slice_layer :: "SimpleSlicer \<Rightarrow> double \<Rightarrow> Layer option" where
  "slice_layer s z =
    (let intersections = scan (triangles s) z []
     in if intersections \<noteq> []
        then Option.bind (generateInfill s intersections z)
               (\<lambda>lines. Some \<lparr>height = z, contours = [intersections], infill = lines\<rparr>)
        else Some \<lparr>height = z, contours = [], infill = []\<rparr>)"

text \<open>
  The loop \<^verbatim>\<open>for (double z = minZ; z <= maxZ; z += layerHeight)\<close> appends every layer to
  the vector \<^verbatim>\<open>layers\<close>, and a vector that grows can fail to allocate
  (\<^verbatim>\<open>std::bad_alloc\<close>, which ends the call).  The heap is a parameter of the model: \<open>mem\<close>
  is the number of doubles that it can hold for the result.  A layer holds its height and
  three coordinates for each point of its contours and of its infill lines, and
  \<^verbatim>\<open>layers.push_back(layer)\<close>, which copies the finished layer with all its points into
  the result, fails when the result no longer fits.
\<close>

datatype error = Bad_alloc | Back_of_empty_vector

definition doubles_of :: "Layer \<Rightarrow> nat" where
  "doubles_of layer =
     1 + 3 * length (concat (contours layer)) + 3 * length (concat (infill layer))"

definition storage :: "Layer list \<Rightarrow> nat" where
  "storage layers = sum_list (map doubles_of layers)"

text \<open>
  The three outcomes of the loop: \<open>None\<close>, it does not return; \<open>Some (Inl Bad_alloc)\<close>, it
  ends in the allocation failure; \<open>Some (Inr layers)\<close>, it returns the layers.
\<close>

partial_function (option) slice_loop ::
  "nat \<Rightarrow> SimpleSlicer \<Rightarrow> double \<Rightarrow> double \<Rightarrow> Layer list \<Rightarrow> (error + Layer list) option" where
  "slice_loop mem s z maxZ layers =
    (if dle z maxZ
     then Option.bind (slice_layer s z)
            (\<lambda>layer. if storage (layers @ [layer]) \<le> mem
                     then slice_loop mem s (dadd z (layerHeight s)) maxZ (layers @ [layer])
                     else Some (Inl Bad_alloc))
     else Some (Inr layers))"

definition slice :: "nat \<Rightarrow> SimpleSlicer \<Rightarrow> (error + Layer list) option" where
  "slice mem s =
    (let bbox = getBoundingBox s;
         minZ = bbox ! 2;
         maxZ = bbox ! 5
     in slice_loop mem s minZ maxZ [])"

subsection \<open>\<^verbatim>\<open>generateGCode\<close> and \<^verbatim>\<open>getLayerInfo\<close>\<close>

text \<open>
  What is written to a \<^verbatim>\<open>std::stringstream\<close>: each \<^verbatim>\<open><<\<close> appends a string literal, a
  double or a \<^verbatim>\<open>size_t\<close>.  The text of the stream is the concatenation of the items,
  a double printed by the stream's number format \<open>fmt\<close>, which belongs to the C++
  library and is a parameter of \<open>render\<close>; the format of an untouched stream is
  \<open>show_double\<close> below.
\<close>

datatype tok = S string | D double | N nat

fun show_nat :: "nat \<Rightarrow> string" where
  "show_nat n = (if n < 10 then [''0123456789'' ! n]
                 else show_nat (n div 10) @ [''0123456789'' ! (n mod 10)])"

declare show_nat.simps [simp del]

fun render_tok :: "(double \<Rightarrow> string) \<Rightarrow> tok \<Rightarrow> string" where
  "render_tok fmt (S s) = s"
| "render_tok fmt (D d) = fmt d"
| "render_tok fmt (N n) = show_nat n"

definition render :: "(double \<Rightarrow> string) \<Rightarrow> tok list \<Rightarrow> string" where
  "render fmt toks = concat (map (render_tok fmt) toks)"

text \<open>
  The format that \<^verbatim>\<open>operator<<\<close> gives a double on a stream whose flags and precision are
  untouched, as in \<^verbatim>\<open>generateGCode\<close> and \<^verbatim>\<open>getLayerInfo\<close>: the conversion \<^verbatim>\<open>%g\<close> with
  precision 6.  The value is rounded to six significant decimal digits, ties to even; it
  is written in fixed notation when its decimal exponent is between \<open>- 4\<close> and 5 and in
  scientific notation otherwise, without trailing zeros in the fraction.  The sign that
  the library may write before \<^verbatim>\<open>nan\<close> is not modelled.
\<close>

text \<open>The decimal exponent of a positive real: \<open>10 powi ilog10 a \<le> a < 10 powi (ilog10 a + 1)\<close>.\<close>

function ilog10 :: "real \<Rightarrow> int" where
  "ilog10 a = (if a \<le> 0 then 0
               else if 10 \<le> a then ilog10 (a / 10) + 1
               else if a < 1 then ilog10 (a * 10) - 1
               else 0)"
  by pat_completeness auto
termination
proof (relation "measure (\<lambda>a. nat \<bar>\<lfloor>log 10 a\<rfloor>\<bar>)")
  show "wf (measure (\<lambda>a. nat \<bar>\<lfloor>log 10 a\<rfloor>\<bar>))" by simp
next
  fix a :: real
  assume a: "\<not> a \<le> 0" "10 \<le> a"
  have e: "log 10 (a / 10) = log 10 a - 1" using a by (simp add: log_divide)
  have "1 \<le> log 10 a" using a by (simp add: le_log_iff)
  then have "1 \<le> \<lfloor>log 10 a\<rfloor>" by linarith
  then have "nat \<bar>\<lfloor>log 10 (a / 10)\<rfloor>\<bar> < nat \<bar>\<lfloor>log 10 a\<rfloor>\<bar>"
    unfolding e by linarith
  then show "(a / 10, a) \<in> measure (\<lambda>a. nat \<bar>\<lfloor>log 10 a\<rfloor>\<bar>)" by simp
next
  fix a :: real
  assume a: "\<not> a \<le> 0" "\<not> 10 \<le> a" "a < 1"
  have e: "log 10 (a * 10) = log 10 a + 1" using a by (simp add: log_mult)
  have "log 10 a < 0" using a by simp
  then have "\<lfloor>log 10 a\<rfloor> \<le> - 1" by linarith
  then have "nat \<bar>\<lfloor>log 10 (a * 10)\<rfloor>\<bar> < nat \<bar>\<lfloor>log 10 a\<rfloor>\<bar>"
    unfolding e by linarith
  then show "(a * 10, a) \<in> measure (\<lambda>a. nat \<bar>\<lfloor>log 10 a\<rfloor>\<bar>)" by simp
qed

declare ilog10.simps [simp del]

text \<open>
  The six digits \<open>m\<close> and the decimal exponent \<open>x\<close> of the rounded value
  \<open>m * 10 powi (x - 5)\<close>; a value that rounds up to the next power of ten takes its
  exponent.
\<close>

definition sig_digits :: "real \<Rightarrow> nat \<times> int" where
  "sig_digits a =
    (let x = ilog10 a;
         m = nat (rne (a / 10 powi (x - 5)))
     in if m = 10 ^ 6 then (10 ^ 5, x + 1) else (m, x))"

text \<open>The last \<open>k\<close> decimal digits of a number.\<close>

fun digits :: "nat \<Rightarrow> nat \<Rightarrow> string" where
  "digits 0 n = []"
| "digits (Suc k) n = digits k (n div 10) @ [''0123456789'' ! (n mod 10)]"

text \<open>The fraction digits without their trailing zeros, after the point; nothing when all are zero.\<close>

definition fraction :: "string \<Rightarrow> string" where
  "fraction ds =
    (let f = rev (dropWhile (\<lambda>c. c = CHR ''0'') (rev ds))
     in if f = [] then [] else CHR ''.'' # f)"

definition show_exponent :: "int \<Rightarrow> string" where
  "show_exponent x =
    (if 0 \<le> x then ''e+'' else ''e-'') @ (if \<bar>x\<bar> < 10 then ''0'' else []) @ show_nat (nat \<bar>x\<bar>)"

definition show_pos :: "real \<Rightarrow> string" where
  "show_pos a =
    (case sig_digits a of
       (m, x) \<Rightarrow>
         let ds = digits 6 m
         in if x < - 4 \<or> 6 \<le> x then take 1 ds @ fraction (drop 1 ds) @ show_exponent x
            else if 0 \<le> x then take (nat x + 1) ds @ fraction (drop (nat x + 1) ds)
            else ''0'' @ fraction (replicate (nat (- x - 1)) CHR ''0'' @ ds))"

fun show_double :: "double \<Rightarrow> string" where
  "show_double (Fin x) =
     (if x = 0 then ''0'' else if x < 0 then ''-'' @ show_pos (- x) else show_pos x)"
| "show_double PInf = ''inf''"
| "show_double NInf = ''-inf''"
| "show_double NaN = ''nan''"

text \<open>The stream and the extrusion accumulator \<^verbatim>\<open>e\<close>, threaded through the loops.\<close>

type_synonym gstate = "tok list \<times> double"

text \<open>The loop \<^verbatim>\<open>for (size_t j = 1; j < contour.size(); j++)\<close>, over the points after the first.\<close>

fun emit_segments :: "Vector3 list \<Rightarrow> gstate \<Rightarrow> gstate" where
  "emit_segments [] st = st"
| "emit_segments (p # ps) (out, e) =
     (let e' = dadd e (lit (1 / 10))
      in emit_segments ps
           (out @ [S ''G1 X'', D (vx p), S '' Y'', D (vy p), S '' E'', D e', S '' F1800\<newline>''], e'))"

fun emit_contour :: "double \<Rightarrow> gstate \<Rightarrow> Vector3 list \<Rightarrow> gstate" where
  "emit_contour h st [] = st"
| "emit_contour h (out, e) (p # ps) =
     emit_segments ps
       (out @ [S ''G0 Z'', D h, S '' F1200\<newline>'',
               S ''G0 X'', D (vx p), S '' Y'', D (vy p), S '' F3000\<newline>''], e)"

fun emit_infill_line :: "double \<Rightarrow> gstate \<Rightarrow> Vector3 list \<Rightarrow> gstate" where
  "emit_infill_line h (out, e) infillLine =
     (if length infillLine < 2 then (out, e)
      else let e' = dadd e (lit (5 / 100))
           in (out @ [S ''G0 Z'', D h, S '' F1200\<newline>'',
                      S ''G0 X'', D (vx (infillLine ! 0)), S '' Y'', D (vy (infillLine ! 0)),
                      S '' F3000\<newline>'',
                      S ''G1 X'', D (vx (infillLine ! 1)), S '' Y'', D (vy (infillLine ! 1)),
                      S '' E'', D e', S '' F1800\<newline>''], e'))"

fun emit_layer :: "nat \<Rightarrow> Layer \<Rightarrow> gstate \<Rightarrow> gstate" where
  "emit_layer i layer (out, e) =
     foldl (emit_infill_line (height layer))
       (foldl (emit_contour (height layer))
          (out @ [S ''; Layer '', N i, S '' at Z='', D (height layer), S ''\<newline>''], e)
          (contours layer))
       (infill layer)"

text \<open>The loop \<^verbatim>\<open>for (size_t i = 0; i < layers.size(); i++)\<close>.\<close>

fun emit_layers :: "nat \<Rightarrow> Layer list \<Rightarrow> gstate \<Rightarrow> gstate" where
  "emit_layers i [] st = st"
| "emit_layers i (layer # layers) st = emit_layers (Suc i) layers (emit_layer i layer st)"

definition gcode_header :: "SimpleSlicer \<Rightarrow> tok list" where
  "gcode_header s =
    [S ''; Generated by WASM Slicer\<newline>'',
     S ''; Layer height: '', D (layerHeight s), S ''mm\<newline>'',
     S ''; Infill density: '', D (infillDensity s), S ''%\<newline>\<newline>'',
     S ''G21 ; Set units to mm\<newline>'',
     S ''G90 ; Absolute positioning\<newline>'',
     S ''M82 ; Extruder absolute mode\<newline>\<newline>'']"

text \<open>The stream after the loop over the layers, with \<^verbatim>\<open>e\<close> starting at \<^verbatim>\<open>0.0\<close>.\<close>

definition gcode_body :: "SimpleSlicer \<Rightarrow> Layer list \<Rightarrow> tok list" where
  "gcode_body s layers = fst (emit_layers 0 layers (gcode_header s, lit 0))"

text \<open>
  \<^verbatim>\<open>layers.back()\<close> on an empty vector is undefined behaviour in C++; the model makes it
  the error value.  A \<^verbatim>\<open>slice\<close> that ends in an allocation failure ends the caller too.
\<close>

definition gcode_stream :: "nat \<Rightarrow> SimpleSlicer \<Rightarrow> (error + tok list) option" where
  "gcode_stream mem s =
    Option.bind (slice mem s)
      (\<lambda>r. case r of
         Inl e \<Rightarrow> Some (Inl e)
       | Inr layers \<Rightarrow>
           if layers = [] then Some (Inl Back_of_empty_vector)
           else Some (Inr (gcode_body s layers @
                  [S ''\<newline>G0 Z'', D (dadd (height (last layers)) (lit 10)), S '' F1200\<newline>'',
                   S ''M84 ; Disable steppers\<newline>''])))"

definition generateGCode ::
  "(double \<Rightarrow> string) \<Rightarrow> nat \<Rightarrow> SimpleSlicer \<Rightarrow> (error + string) option" where
  "generateGCode fmt mem s = map_option (map_sum id (render fmt)) (gcode_stream mem s)"

fun info_bbox :: "nat \<Rightarrow> double list \<Rightarrow> tok list" where
  "info_bbox i [] = []"
| "info_bbox i (b # bs) = (if 0 < i then [S '', ''] else []) @ [D b] @ info_bbox (Suc i) bs"

fun info_layers :: "nat \<Rightarrow> Layer list \<Rightarrow> tok list" where
  "info_layers i [] = []"
| "info_layers i (layer # layers) =
     (if 0 < i then [S '',\<newline>''] else []) @
     [S ''    {\<newline>'',
      S ''      \"height\": '', D (height layer), S '',\<newline>'',
      S ''      \"contourCount\": '', N (length (contours layer)), S '',\<newline>'',
      S ''      \"infillCount\": '', N (length (infill layer)), S ''\<newline>'',
      S ''    }''] @ info_layers (Suc i) layers"

definition info_stream :: "nat \<Rightarrow> SimpleSlicer \<Rightarrow> (error + tok list) option" where
  "info_stream mem s =
    Option.bind (slice mem s)
      (\<lambda>r. case r of
         Inl e \<Rightarrow> Some (Inl e)
       | Inr layers \<Rightarrow> Some (Inr
           ([S ''{\<newline>'',
             S ''  \"layerHeight\": '', D (layerHeight s), S '',\<newline>'',
             S ''  \"infillDensity\": '', D (infillDensity s), S '',\<newline>'',
             S ''  \"totalLayers\": '', N (length layers), S '',\<newline>'',
             S ''  \"boundingBox\": [''] @
            info_bbox 0 (getBoundingBox s) @
            [S ''],\<newline>'', S ''  \"layers\": [\<newline>''] @
            info_layers 0 layers @
            [S ''\<newline>  ]\<newline>'', S ''}''])))"

definition getLayerInfo ::
  "(double \<Rightarrow> string) \<Rightarrow> nat \<Rightarrow> SimpleSlicer \<Rightarrow> (error + string) option" where
  "getLayerInfo fmt mem s = map_option (map_sum id (render fmt)) (info_stream mem s)"

section \<open>Notions used to state the properties\<close>

subsection \<open>Well-formed meshes\<close>

fun coords :: "Triangle \<Rightarrow> double list" where
  "coords (Triangle a b c) = [vx a, vy a, vz a, vx b, vy b, vz b, vx c, vy c, vz c]"

definition is_num :: "double \<Rightarrow> bool" where
  "is_num d \<longleftrightarrow> d \<noteq> NaN"

text \<open>A mesh none of whose coordinates is NaN.\<close>

definition mesh_num :: "Triangle list \<Rightarrow> bool" where
  "mesh_num ts = list_all (\<lambda>t. list_all is_num (coords t)) ts"

fun bounded_by :: "real \<Rightarrow> double \<Rightarrow> bool" where
  "bounded_by B (Fin r) = (\<bar>r\<bar> \<le> B)"
| "bounded_by B _ = False"

text \<open>A mesh all of whose coordinates are finite and of magnitude at most \<open>B\<close>.\<close>

definition mesh_within :: "real \<Rightarrow> Triangle list \<Rightarrow> bool" where
  "mesh_within B ts = list_all (\<lambda>t. list_all (bounded_by B) (coords t)) ts"

definition tri_num :: "(Vector3 \<Rightarrow> double) \<Rightarrow> Triangle \<Rightarrow> bool" where
  "tri_num g t \<longleftrightarrow> is_num (g (v1 t)) \<and> is_num (g (v2 t)) \<and> is_num (g (v3 t))"

text \<open>
  A counting loop \<^verbatim>\<open>for (v = v0; v <= hi; v = f v)\<close> leaves after \<open>n\<close> passes: the first \<open>n\<close>
  values pass the test and the next one fails it.
\<close>

definition exits :: "(double \<Rightarrow> double) \<Rightarrow> double \<Rightarrow> double \<Rightarrow> nat \<Rightarrow> bool" where
  "exits f hi v0 n \<longleftrightarrow> (\<forall>k<n. dle ((f ^^ k) v0) hi) \<and> \<not> dle ((f ^^ n) v0) hi"

text \<open>
  The configurations for which the two loops are shown to end: a layer height of at least
  \<open>2 powi - 30\<close> (or infinite), and an infill density in \<open>(0, 100]\<close>.
\<close>

fun step_ok :: "double \<Rightarrow> bool" where
  "step_ok (Fin h) = (1 / 2 ^ 30 \<le> h)"
| "step_ok PInf = True"
| "step_ok _ = False"

fun density_ok :: "double \<Rightarrow> bool" where
  "density_ok (Fin d) = (0 < d \<and> d \<le> 100)"
| "density_ok _ = False"

text \<open>The least and the greatest of one coordinate over a triangle, and over a mesh, as the
  loop of \<^verbatim>\<open>getBoundingBox\<close> accumulates them.\<close>

definition lo3 :: "(Vector3 \<Rightarrow> double) \<Rightarrow> Triangle \<Rightarrow> double" where
  "lo3 g t = dmin (g (v1 t)) (dmin (g (v2 t)) (g (v3 t)))"

definition hi3 :: "(Vector3 \<Rightarrow> double) \<Rightarrow> Triangle \<Rightarrow> double" where
  "hi3 g t = dmax (g (v1 t)) (dmax (g (v2 t)) (g (v3 t)))"

definition fold_lo :: "(Vector3 \<Rightarrow> double) \<Rightarrow> double \<Rightarrow> Triangle list \<Rightarrow> double" where
  "fold_lo g a ts = foldl (\<lambda>m t. dmin m (lo3 g t)) a ts"

definition fold_hi :: "(Vector3 \<Rightarrow> double) \<Rightarrow> double \<Rightarrow> Triangle list \<Rightarrow> double" where
  "fold_hi g a ts = foldl (\<lambda>m t. dmax m (hi3 g t)) a ts"

subsection \<open>Plane heights and candidates\<close>

text \<open>The \<open>i\<close>-th plane height: \<open>minZ\<close>, to which \<open>layerHeight\<close> has been added \<open>i\<close> times.\<close>

definition plane :: "SimpleSlicer \<Rightarrow> nat \<Rightarrow> double" where
  "plane s i = ((\<lambda>z. dadd z (layerHeight s)) ^^ i) (getBoundingBox s ! 2)"

text \<open>The layer count and the layer heights as the specification writes them, in exact arithmetic.\<close>

definition spec_layer_count :: "real \<Rightarrow> real \<Rightarrow> real \<Rightarrow> nat" where
  "spec_layer_count minZ maxZ h = nat \<lfloor>(maxZ - minZ) / h\<rfloor> + 1"

definition spec_layer_height :: "real \<Rightarrow> real \<Rightarrow> nat \<Rightarrow> real" where
  "spec_layer_height minZ h i = minZ + real i * h"

text \<open>An edge brackets \<open>z\<close> when \<open>z\<close> lies between its endpoints, in either orientation.\<close>

definition brackets :: "double \<Rightarrow> double \<Rightarrow> double \<Rightarrow> bool" where
  "brackets a b z \<longleftrightarrow> (dle a z \<and> dle z b) \<or> (dle b z \<and> dle z a)"

definition candidate :: "Triangle \<Rightarrow> double \<Rightarrow> bool" where
  "candidate tri z \<longleftrightarrow>
     brackets (vz (v1 tri)) (vz (v2 tri)) z \<or>
     brackets (vz (v2 tri)) (vz (v3 tri)) z \<or>
     brackets (vz (v3 tri)) (vz (v1 tri)) z"

subsection \<open>Infill lines\<close>

text \<open>The \<open>k\<close>-th X value: \<open>minX\<close>, to which the step \<open>2.0 / (infillDensity / 100)\<close> has been added \<open>k\<close> times.\<close>

definition infill_step :: "SimpleSlicer \<Rightarrow> double" where
  "infill_step s = ddiv (lit 2) (ddiv (infillDensity s) (lit 100))"

definition infill_x :: "SimpleSlicer \<Rightarrow> nat \<Rightarrow> double" where
  "infill_x s k = ((\<lambda>x. dadd x (infill_step s)) ^^ k) (getBoundingBox s ! 0)"

definition infill_line :: "SimpleSlicer \<Rightarrow> double \<Rightarrow> double \<Rightarrow> Vector3 list" where
  "infill_line s z x = [Vector3 x (getBoundingBox s ! 1) z, Vector3 x (getBoundingBox s ! 4) z]"

subsection \<open>Extrusion values\<close>

text \<open>The values printed after \<^verbatim>\<open>" E"\<close>, in the order of the stream.\<close>

fun e_values :: "tok list \<Rightarrow> double list" where
  "e_values (S k # D e # ts) = (if k = '' E'' then [e] else []) @ e_values ts"
| "e_values (t # ts) = e_values ts"
| "e_values [] = []"

text \<open>
  The increments as the specification gives them: 0.1 for each point of a contour after
  its first, 0.05 for each infill line of at least two points, layer after layer.
\<close>

definition contour_increments :: "Vector3 list \<Rightarrow> double list" where
  "contour_increments c = replicate (length c - 1) (lit (1 / 10))"

definition line_increments :: "Vector3 list \<Rightarrow> double list" where
  "line_increments l = (if length l < 2 then [] else [lit (5 / 100)])"

definition layer_increments :: "Layer \<Rightarrow> double list" where
  "layer_increments layer =
     concat (map contour_increments (contours layer)) @ concat (map line_increments (infill layer))"

definition extrusion_increments :: "Layer list \<Rightarrow> double list" where
  "extrusion_increments layers = concat (map layer_increments layers)"

text \<open>The running totals of a list of increments, from a start value.\<close>

fun running :: "double \<Rightarrow> double list \<Rightarrow> double list" where
  "running e [] = []"
| "running e (c # cs) = dadd e c # running (dadd e c) cs"

text \<open>
  The number that the text of a positive double denotes: the value rounded to six
  significant digits, whose digits and exponent \<open>show_pos\<close> writes.
\<close>

definition shown :: "real \<Rightarrow> real" where
  "shown a = (case sig_digits a of (m, x) \<Rightarrow> real m * 10 powi (x - 5))"

subsection \<open>Reading the outputs\<close>

text \<open>
  A piece of the stream that one of the loops appends; each piece is empty or begins with
  a string literal.  \<open>emits st st' cs m\<close>: from the state \<open>st\<close> the code reaches \<open>st'\<close> by
  appending a piece whose extrusion values are the running totals of the increments \<open>cs\<close>
  from the accumulator of \<open>st\<close>, with \<open>m\<close> layer comments, and leaves the accumulator at the
  last total.
\<close>

fun starts_S :: "tok list \<Rightarrow> bool" where
  "starts_S [] = True"
| "starts_S (S k # ts) = True"
| "starts_S (t # ts) = False"

text \<open>The item written right after a given string literal.\<close>

fun field_after :: "string \<Rightarrow> tok list \<Rightarrow> tok option" where
  "field_after k [] = None"
| "field_after k [t] = None"
| "field_after k (t # u # ts) = (if t = S k then Some u else field_after k (u # ts))"

definition totalLayers :: "tok list \<Rightarrow> tok option" where
  "totalLayers info = field_after ''  \"totalLayers\": '' info"

text \<open>The number of \<^verbatim>\<open>"; Layer i at Z=..."\<close> comment lines of a G-code stream.\<close>

definition layer_comments :: "tok list \<Rightarrow> nat" where
  "layer_comments toks = length (filter (\<lambda>t. t = S ''; Layer '') toks)"

definition emits :: "gstate \<Rightarrow> gstate \<Rightarrow> double list \<Rightarrow> nat \<Rightarrow> bool" where
  "emits st st' cs m \<longleftrightarrow>
     (\<exists>T. fst st' = fst st @ T \<and> starts_S T \<and> e_values T = running (snd st) cs \<and>
          layer_comments T = m \<and> snd st' = foldl dadd (snd st) cs)"

text \<open>The cube of side 10 centred at the origin, as twelve triangles.\<close>

definition corner :: "real \<Rightarrow> real \<Rightarrow> real \<Rightarrow> Vector3" where
  "corner a b c = Vector3 (Fin a) (Fin b) (Fin c)"

definition cube_triangles :: "Triangle list" where
  "cube_triangles =
    [Triangle (corner (- 5) (- 5) (- 5)) (corner 5 (- 5) (- 5)) (corner 5 5 (- 5)),
     Triangle (corner (- 5) (- 5) (- 5)) (corner 5 5 (- 5)) (corner (- 5) 5 (- 5)),
     Triangle (corner (- 5) (- 5) 5) (corner 5 (- 5) 5) (corner 5 5 5),
     Triangle (corner (- 5) (- 5) 5) (corner 5 5 5) (corner (- 5) 5 5),
     Triangle (corner (- 5) (- 5) (- 5)) (corner 5 (- 5) (- 5)) (corner 5 (- 5) 5),
     Triangle (corner (- 5) (- 5) (- 5)) (corner 5 (- 5) 5) (corner (- 5) (- 5) 5),
     Triangle (corner 5 5 (- 5)) (corner (- 5) 5 (- 5)) (corner (- 5) 5 5),
     Triangle (corner 5 5 (- 5)) (corner (- 5) 5 5) (corner 5 5 5),
     Triangle (corner 5 (- 5) (- 5)) (corner 5 5 (- 5)) (corner 5 5 5),
     Triangle (corner 5 (- 5) (- 5)) (corner 5 5 5) (corner 5 (- 5) 5),
     Triangle (corner (- 5) (- 5) (- 5)) (corner (- 5) 5 (- 5)) (corner (- 5) 5 5),
     Triangle (corner (- 5) (- 5) (- 5)) (corner (- 5) 5 5) (corner (- 5) (- 5) 5)]"

text \<open>The slicer as the bindings reach it: constructed, then \<^verbatim>\<open>parseSTL\<close> called.\<close>

definition cube :: SimpleSlicer where
  "cube = snd (parseSTL [] new_SimpleSlicer)"

text \<open>
  The cube sliced with layer height 4 and the default infill density 20: three layers, at
  heights -5, -1 and 3.  Every side triangle of the cube has two vertices at the same
  height, so each interpolation divides by zero and the contour points have infinite or
  NaN X and Y coordinates.
\<close>

definition cube4 :: SimpleSlicer where
  "cube4 = setLayerHeight (Fin 4) cube"

definition cube4_layer0 :: Layer where
  "cube4_layer0 =
   \<lparr>height = Fin (- 5),
    contours =
     [[Vector3 NaN NaN (Fin (- 5)),
       Vector3 NaN NaN (Fin (- 5)),
       Vector3 NaN NaN (Fin (- 5)),
       Vector3 PInf NaN (Fin (- 5)),
       Vector3 NaN NaN (Fin (- 5)),
       Vector3 NInf NaN (Fin (- 5)),
       Vector3 NaN NaN (Fin (- 5)),
       Vector3 NaN PInf (Fin (- 5)),
       Vector3 NaN NaN (Fin (- 5)),
       Vector3 NaN PInf (Fin (- 5))]],
    infill =
     [[Vector3 (Fin (- 5)) (Fin (- 5)) (Fin (- 5)), Vector3 (Fin (- 5)) (Fin 5) (Fin (- 5))],
      [Vector3 (Fin 5) (Fin (- 5)) (Fin (- 5)), Vector3 (Fin 5) (Fin 5) (Fin (- 5))]]\<rparr>"

definition cube4_layer1 :: Layer where
  "cube4_layer1 =
   \<lparr>height = Fin (- 1),
    contours =
     [[Vector3 PInf NaN (Fin (- 1)),
       Vector3 PInf NaN (Fin (- 1)),
       Vector3 NInf NaN (Fin (- 1)),
       Vector3 NInf NaN (Fin (- 1)),
       Vector3 NaN PInf (Fin (- 1)),
       Vector3 NaN PInf (Fin (- 1)),
       Vector3 NaN PInf (Fin (- 1)),
       Vector3 NaN PInf (Fin (- 1))]],
    infill =
     [[Vector3 (Fin (- 5)) (Fin (- 5)) (Fin (- 1)), Vector3 (Fin (- 5)) (Fin 5) (Fin (- 1))],
      [Vector3 (Fin 5) (Fin (- 5)) (Fin (- 1)), Vector3 (Fin 5) (Fin 5) (Fin (- 1))]]\<rparr>"

definition cube4_layer2 :: Layer where
  "cube4_layer2 =
   \<lparr>height = Fin 3,
    contours =
     [[Vector3 PInf NaN (Fin 3),
       Vector3 PInf NaN (Fin 3),
       Vector3 NInf NaN (Fin 3),
       Vector3 NInf NaN (Fin 3),
       Vector3 NaN PInf (Fin 3),
       Vector3 NaN PInf (Fin 3),
       Vector3 NaN PInf (Fin 3),
       Vector3 NaN PInf (Fin 3)]],
    infill =
     [[Vector3 (Fin (- 5)) (Fin (- 5)) (Fin 3), Vector3 (Fin (- 5)) (Fin 5) (Fin 3)],
      [Vector3 (Fin 5) (Fin (- 5)) (Fin 3), Vector3 (Fin 5) (Fin 5) (Fin 3)]]\<rparr>"

definition cube4_layers :: "Layer list" where
  "cube4_layers = [cube4_layer0, cube4_layer1, cube4_layer2]"

text \<open>The cube with layer height \<open>2 / 9\<close>, and the cube with infill density \<open>-1\<close>.\<close>

definition cube29 :: SimpleSlicer where
  "cube29 = setLayerHeight (lit (2 / 9)) cube"

definition cube_neg :: SimpleSlicer where
  "cube_neg = setInfillDensity (Fin (- 1)) cube"

text \<open>
  The cube with layer height \<open>2 powi - 30\<close>, which has more than \<open>10 ^ 10\<close> planes, and the
  cube with layer height \<open>1 / 4096\<close> and infill density 100.
\<close>

definition cube30 :: SimpleSlicer where
  "cube30 = setLayerHeight (Fin (1 / 2 ^ 30)) cube"

definition cube_fine :: SimpleSlicer where
  "cube_fine = setInfillDensity (Fin 100) (setLayerHeight (Fin (1 / 4096)) cube)"

section \<open>Properties of the rounding\<close>

lemmas rnd_eval = lit_def rnd_def rmag_def ulp_of_def rne_def ilog2.simps Let_def

lemma two_powi_less_iff: "(2::real) powi m < 2 powi n \<longleftrightarrow> m < n"
proof
  assume l: "(2::real) powi m < 2 powi n"
  show "m < n"
  proof (rule ccontr)
    assume "\<not> m < n"
    then have "(2::real) powi n \<le> 2 powi m" by (intro power_int_increasing) auto
    with l show False by simp
  qed
next
  assume "m < n"
  then show "(2::real) powi m < 2 powi n" by (intro power_int_strict_increasing) auto
qed

lemma two_powi_le_iff: "(2::real) powi m \<le> 2 powi n \<longleftrightarrow> m \<le> n"
  using two_powi_less_iff [of n m] by auto

lemma two_powi_pos: "0 < (2::real) powi n"
  by (simp add: zero_less_power_int)

lemma two_powi_Suc: "(2::real) powi (n + 1) = 2 * 2 powi n"
  by (simp add: power_int_add)

lemma two_powi_shift: "(2::real) powi (n + m) = 2 powi n * 2 powi m"
  by (rule power_int_add) simp

lemma ilog2_spec:
  "0 < a \<Longrightarrow> 2 powi (ilog2 a) \<le> a \<and> a < 2 powi (ilog2 a + 1)"
proof (induction a rule: ilog2.induct)
  case (1 a)
  show ?case
  proof (cases "2 \<le> a")
    case True
    with 1 have ih: "2 powi (ilog2 (a / 2)) \<le> a / 2" "a / 2 < 2 powi (ilog2 (a / 2) + 1)"
      by auto
    have e: "ilog2 a = ilog2 (a / 2) + 1"
      using True 1(3) by (subst ilog2.simps) simp
    have p: "(2::real) powi (ilog2 (a / 2) + 1 + 1) = 2 * 2 powi (ilog2 (a / 2) + 1)"
      "(2::real) powi (ilog2 (a / 2) + 1) = 2 * 2 powi (ilog2 (a / 2))"
      by (rule two_powi_Suc)+
    show ?thesis unfolding e using ih p by linarith
  next
    case False
    show ?thesis
    proof (cases "a < 1")
      case True
      with 1 False have ih: "2 powi (ilog2 (a * 2)) \<le> a * 2" "a * 2 < 2 powi (ilog2 (a * 2) + 1)"
        by auto
      have e: "ilog2 a = ilog2 (a * 2) - 1"
        using True False 1(3) by (subst ilog2.simps) simp
      have p: "(2::real) powi (ilog2 (a * 2) - 1 + 1) = 2 * 2 powi (ilog2 (a * 2) - 1)"
        "(2::real) powi (ilog2 (a * 2) + 1) = 2 * 2 powi (ilog2 (a * 2))"
        by (rule two_powi_Suc)+
      have q: "(2::real) powi (ilog2 (a * 2) - 1 + 1) = 2 powi (ilog2 (a * 2))" by simp
      show ?thesis unfolding e using ih p q by linarith
    next
      case f2: False
      have e: "ilog2 a = 0" using False f2 1(3) by (subst ilog2.simps) simp
      show ?thesis unfolding e using False f2 by simp
    qed
  qed
qed

lemma ilog2_mono:
  assumes "0 < a" "a \<le> b"
  shows "ilog2 a \<le> ilog2 b"
proof -
  have "2 powi (ilog2 a) \<le> a" using ilog2_spec [OF assms(1)] by simp
  moreover have "b < 2 powi (ilog2 b + 1)" using ilog2_spec [of b] assms by simp
  ultimately have "(2::real) powi (ilog2 a) < 2 powi (ilog2 b + 1)" using assms by linarith
  then have "ilog2 a < ilog2 b + 1"
    by (simp only: two_powi_less_iff)
  then show ?thesis by simp
qed

lemma rne_of_int: "rne (of_int k) = k"
  by (simp add: rne_def)

lemma rne_zero: "rne 0 = 0"
  by (simp add: rne_def)

lemma rne_mono: "x \<le> y \<Longrightarrow> rne x \<le> rne y"
proof -
  assume xy: "x \<le> y"
  have f: "\<lfloor>x\<rfloor> \<le> \<lfloor>y\<rfloor>" using xy by (rule floor_mono)
  show ?thesis
  proof (cases "\<lfloor>x\<rfloor> = \<lfloor>y\<rfloor>")
    case True
    then show ?thesis using xy by (auto simp: rne_def Let_def)
  next
    case False
    with f have "\<lfloor>x\<rfloor> + 1 \<le> \<lfloor>y\<rfloor>" by simp
    moreover have "rne x \<le> \<lfloor>x\<rfloor> + 1" by (simp add: rne_def Let_def)
    moreover have "\<lfloor>y\<rfloor> \<le> rne y" by (simp add: rne_def Let_def)
    ultimately show ?thesis by linarith
  qed
qed

lemma ulp_of_pos: "0 < ulp_of a"
  by (simp add: ulp_of_def two_powi_pos)

lemma rmag_nonneg: "0 \<le> a \<Longrightarrow> 0 \<le> rmag a"
proof -
  assume "0 \<le> a"
  then have "0 \<le> a / ulp_of a" using ulp_of_pos [of a] by simp
  then have "rne 0 \<le> rne (a / ulp_of a)" by (rule rne_mono)
  then have "0 \<le> rne (a / ulp_of a)" by (simp only: rne_zero)
  then show ?thesis unfolding rmag_def using ulp_of_pos [of a] by simp
qed

text \<open>A rounded magnitude stays within the binade of the magnitude.\<close>

lemma rmag_upper:
  assumes "0 < a"
  shows "rmag a \<le> 2 powi (max (ilog2 a) (- 1022) + 1)"
proof -
  define E where "E = max (ilog2 a) (- 1022)"
  have u: "ulp_of a = 2 powi (E - 52)" by (simp add: ulp_of_def E_def)
  have "a < 2 powi (ilog2 a + 1)" using ilog2_spec [OF assms] by simp
  also have "\<dots> \<le> 2 powi (E + 1)" by (simp add: two_powi_le_iff E_def)
  finally have "a < 2 powi (E + 1)" .
  moreover have "(2::real) powi (E + 1) = 2 powi 53 * 2 powi (E - 52)"
    using two_powi_shift [of 53 "E - 52"] by (simp add: add.commute)
  ultimately have "a / ulp_of a \<le> 2 powi 53"
    unfolding u using two_powi_pos [of "E - 52"] by (simp add: field_simps)
  also have "(2::real) powi 53 = of_int (2 ^ 53)" by simp
  finally have "rne (a / ulp_of a) \<le> rne (of_int (2 ^ 53))" by (rule rne_mono)
  then have "rne (a / ulp_of a) \<le> 2 ^ 53" by (simp only: rne_of_int)
  then have "real_of_int (rne (a / ulp_of a)) \<le> real_of_int (2 ^ 53)"
    by (simp only: of_int_le_iff)
  then have "real_of_int (rne (a / ulp_of a)) \<le> 2 ^ 53" by simp
  then have "rmag a \<le> 2 ^ 53 * 2 powi (E - 52)"
    unfolding rmag_def u using two_powi_pos [of "E - 52"] by (simp add: field_simps)
  also have "\<dots> = 2 powi (E + 1)" using two_powi_shift [of 53 "E - 52"] by (simp add: add.commute)
  finally show ?thesis by (simp add: E_def)
qed

lemma rmag_lower:
  assumes "0 < a" "- 1022 \<le> ilog2 a"
  shows "2 powi (ilog2 a) \<le> rmag a"
proof -
  define E where "E = ilog2 a"
  have u: "ulp_of a = 2 powi (E - 52)" using assms by (simp add: ulp_of_def E_def max_def)
  have "2 powi E \<le> a" using ilog2_spec [OF assms(1)] by (simp add: E_def)
  moreover have "(2::real) powi E = 2 powi 52 * 2 powi (E - 52)"
    using two_powi_shift [of 52 "E - 52"] by simp
  ultimately have "2 powi 52 \<le> a / ulp_of a"
    unfolding u using two_powi_pos [of "E - 52"] by (simp add: field_simps)
  moreover have "(2::real) powi 52 = of_int (2 ^ 52)" by simp
  ultimately have "rne (of_int (2 ^ 52)) \<le> rne (a / ulp_of a)"
    by (intro rne_mono) simp
  then have "2 ^ 52 \<le> rne (a / ulp_of a)" by (simp only: rne_of_int)
  then have "real_of_int (2 ^ 52) \<le> real_of_int (rne (a / ulp_of a))"
    by (simp only: of_int_le_iff)
  then have "2 ^ 52 \<le> real_of_int (rne (a / ulp_of a))" by simp
  then have "2 ^ 52 * 2 powi (E - 52) \<le> rmag a"
    unfolding rmag_def u using two_powi_pos [of "E - 52"] by (simp add: field_simps)
  moreover have "(2::real) ^ 52 * 2 powi (E - 52) = 2 powi E"
    using two_powi_shift [of 52 "E - 52"] by simp
  ultimately show ?thesis by (simp add: E_def)
qed

lemma rmag_mono:
  assumes "0 < a" "a \<le> b"
  shows "rmag a \<le> rmag b"
proof -
  define Ea where "Ea = max (ilog2 a) (- 1022)"
  define Eb where "Eb = max (ilog2 b) (- 1022)"
  have b: "0 < b" using assms by simp
  have le: "Ea \<le> Eb" using ilog2_mono [OF assms] by (simp add: Ea_def Eb_def)
  show ?thesis
  proof (cases "Ea = Eb")
    case True
    then have u: "ulp_of a = ulp_of b" by (simp add: ulp_of_def Ea_def Eb_def)
    have "a / ulp_of b \<le> b / ulp_of b" using assms ulp_of_pos [of b] by (simp add: field_simps)
    then have "rne (a / ulp_of b) \<le> rne (b / ulp_of b)" by (rule rne_mono)
    then have "real_of_int (rne (a / ulp_of b)) \<le> real_of_int (rne (b / ulp_of b))" by simp
    then show ?thesis unfolding rmag_def u using ulp_of_pos [of b]
      by (simp add: mult_right_mono)
  next
    case False
    with le have lt: "Ea < Eb" by simp
    then have eb: "Eb = ilog2 b" "- 1022 \<le> ilog2 b" by (auto simp: Ea_def Eb_def)
    have "rmag a \<le> 2 powi (Ea + 1)" using rmag_upper [OF assms(1)] by (simp add: Ea_def)
    also have "\<dots> \<le> 2 powi Eb" using lt by (simp add: two_powi_le_iff)
    also have "\<dots> \<le> rmag b" using rmag_lower [OF b eb(2)] eb(1) by simp
    finally show ?thesis .
  qed
qed

lemma rnd_uminus: "rnd (- x) = dneg (rnd x)"
  by (simp add: rnd_def Let_def sgn_if)

lemma rnd_pos: "0 < x \<Longrightarrow> rnd x = (if rmag x < 2 ^ 1024 then Fin (rmag x) else PInf)"
  by (simp add: rnd_def Let_def)

lemma dle_dneg: "dle a b \<Longrightarrow> dle (dneg b) (dneg a)"
  by (cases a; cases b) simp_all

lemma rnd_mono_pos:
  assumes "0 < x" "x \<le> y"
  shows "dle (rnd x) (rnd y)"
proof -
  have y: "0 < y" using assms by simp
  have "rmag x \<le> rmag y" using assms by (rule rmag_mono)
  then show ?thesis by (simp add: rnd_pos assms(1) y)
qed

lemma rnd_sign_pos: "0 < x \<Longrightarrow> dle (Fin 0) (rnd x)"
  using rmag_nonneg [of x] by (simp add: rnd_pos)

lemma rnd_zero: "rnd 0 = Fin 0"
  by (simp add: rnd_def)

text \<open>Rounding is monotone.\<close>

lemma rnd_mono:
  assumes "x \<le> y"
  shows "dle (rnd x) (rnd y)"
proof -
  consider "0 < x" | "y < 0" | "x \<le> 0" "0 \<le> y" using assms by linarith
  then show ?thesis
  proof cases
    case 1
    then show ?thesis using assms by (rule rnd_mono_pos)
  next
    case 2
    then have "dle (rnd (- y)) (rnd (- x))" using assms by (intro rnd_mono_pos) auto
    then have "dle (dneg (rnd (- x))) (dneg (rnd (- y)))" by (rule dle_dneg)
    then show ?thesis by (simp add: rnd_uminus) (cases "rnd x"; cases "rnd y"; simp)
  next
    case 3
    have a: "dle (rnd x) (Fin 0)"
    proof (cases "x = 0")
      case True then show ?thesis by (simp add: rnd_zero)
    next
      case False
      with 3 have "dle (Fin 0) (rnd (- x))" by (intro rnd_sign_pos) simp
      then show ?thesis by (simp add: rnd_uminus) (cases "rnd x"; simp)
    qed
    have b: "dle (Fin 0) (rnd y)"
    proof (cases "y = 0")
      case True then show ?thesis by (simp add: rnd_zero)
    next
      case False
      with 3 show ?thesis by (intro rnd_sign_pos) simp
    qed
    from a b show ?thesis by (cases "rnd x"; cases "rnd y"; simp)
  qed
qed

text \<open>
  A multiple of \<open>1 / 2 ^ k\<close> whose numerator has fewer than 54 bits is a double: rounding
  leaves it as it is.
\<close>

lemma rmag_grid:
  assumes k: "k \<le> 1022" and m: "0 < m" "m < 2 ^ 53"
  shows "rmag (of_int m / 2 ^ k) = of_int m / 2 ^ k"
proof -
  define a :: real where "a = of_int m / 2 ^ k"
  define E where "E = max (ilog2 a) (- 1022)"
  have apos: "0 < a" using m by (simp add: a_def)
  have "a < 2 ^ 53 / 2 ^ k"
  proof -
    have "real_of_int m < real_of_int (2 ^ 53)" using m(2) by (simp only: of_int_less_iff)
    then show ?thesis by (simp add: a_def divide_strict_right_mono)
  qed
  also have "\<dots> = 2 powi (53 - int k)"
    using two_powi_shift [of "53 - int k" "int k"] by (simp add: field_simps)
  finally have "a < 2 powi (53 - int k)" .
  moreover have "2 powi (ilog2 a) \<le> a" using ilog2_spec [OF apos] by simp
  ultimately have "(2::real) powi (ilog2 a) < 2 powi (53 - int k)" by linarith
  then have "ilog2 a < 53 - int k" by (simp only: two_powi_less_iff)
  then have E: "E \<le> 52 - int k" using k by (simp add: E_def)
  define n where "n = nat (52 - int k - E)"
  have n: "int n = 52 - int k - E" using E by (simp add: n_def)
  have u: "ulp_of a = 2 powi (E - 52)" by (simp add: ulp_of_def E_def)
  have "(2::real) powi (int n) * 2 powi (E - 52) = 2 powi (- int k)"
    using two_powi_shift [of "int n" "E - 52"] by (simp add: n)
  then have s: "(2::real) ^ n * 2 powi (E - 52) = 1 / 2 ^ k"
    by (simp add: power_int_minus_divide)
  have q: "a / ulp_of a = of_int (m * 2 ^ n)"
  proof -
    have "of_int (m * 2 ^ n) * ulp_of a = of_int m * ((2::real) ^ n * 2 powi (E - 52))"
      by (simp add: u)
    also have "\<dots> = a" unfolding s by (simp add: a_def)
    finally show ?thesis using ulp_of_pos [of a] by (simp add: field_simps)
  qed
  have "rmag a = of_int (m * 2 ^ n) * ulp_of a"
    unfolding rmag_def q by (simp only: rne_of_int)
  also have "\<dots> = a" using q ulp_of_pos [of a] by (simp add: field_simps)
  finally show ?thesis by (simp add: a_def)
qed

lemma rnd_grid_pos:
  assumes k: "k \<le> 1022" and m: "0 < m" "m < 2 ^ 53"
  shows "rnd (of_int m / 2 ^ k) = Fin (of_int m / 2 ^ k)"
proof -
  have pos: "0 < real_of_int m / 2 ^ k" using m by simp
  have "real_of_int m < real_of_int (2 ^ 53)" using m(2) by (simp only: of_int_less_iff)
  then have "real_of_int m < 2 ^ 53" by simp
  moreover have "real_of_int m / 2 ^ k \<le> real_of_int m"
    using m(1) by (simp add: divide_le_eq)
  moreover have "(2::real) ^ 53 < 2 ^ 1024" by simp
  ultimately have "real_of_int m / 2 ^ k < 2 ^ 1024" by linarith
  then show ?thesis
    by (simp add: rnd_pos [OF pos] rmag_grid [OF assms])
qed

lemma rnd_grid:
  assumes k: "k \<le> 1022" and m: "\<bar>m\<bar> < 2 ^ 53"
  shows "rnd (of_int m / 2 ^ k) = Fin (of_int m / 2 ^ k)"
proof -
  consider "m = 0" | "0 < m" | "m < 0" by linarith
  then show ?thesis
  proof cases
    case 1
    then show ?thesis by (simp add: rnd_zero)
  next
    case 2
    then show ?thesis using m by (intro rnd_grid_pos k) auto
  next
    case 3
    then have "rnd (of_int (- m) / 2 ^ k) = Fin (of_int (- m) / 2 ^ k)"
      using m by (intro rnd_grid_pos k) auto
    then have "dneg (rnd (of_int m / 2 ^ k)) = Fin (- (of_int m / 2 ^ k))"
      using rnd_uminus [of "of_int m / 2 ^ k"] by simp
    then show ?thesis by (cases "rnd (of_int m / 2 ^ k)") simp_all
  qed
qed

section \<open>The order of the doubles\<close>

lemma dle_refl: "is_num a \<Longrightarrow> dle a a"
  by (cases a) (simp_all add: is_num_def)

lemma dle_trans: "dle a b \<Longrightarrow> dle b c \<Longrightarrow> dle a c"
  by (cases a; cases b; cases c) simp_all

lemma dle_total: "is_num a \<Longrightarrow> is_num b \<Longrightarrow> dle a b \<or> dle b a"
  by (cases a; cases b) (auto simp: is_num_def)

lemma dle_is_num: "dle a b \<Longrightarrow> is_num a \<and> is_num b"
  by (cases a; cases b) (simp_all add: is_num_def)

lemma dlt_dle: "dlt a b \<Longrightarrow> dle a b"
  by (cases a; cases b) simp_all

lemma not_dlt_dle: "is_num a \<Longrightarrow> is_num b \<Longrightarrow> \<not> dlt a b \<Longrightarrow> dle b a"
  by (cases a; cases b) (auto simp: is_num_def)

lemma dmin_props:
  assumes "is_num a" "is_num b"
  shows "is_num (dmin a b)" "dle (dmin a b) a" "dle (dmin a b) b"
  using assms by (auto simp: dmin_def dlt_dle dle_refl not_dlt_dle)

lemma dmax_props:
  assumes "is_num a" "is_num b"
  shows "is_num (dmax a b)" "dle a (dmax a b)" "dle b (dmax a b)"
  using assms by (auto simp: dmax_def dlt_dle dle_refl not_dlt_dle)

section \<open>The bounding box\<close>

lemma lo3_props:
  assumes "tri_num g t"
  shows "is_num (lo3 g t)" "dle (lo3 g t) (g (v1 t))" "dle (lo3 g t) (g (v2 t))" "dle (lo3 g t) (g (v3 t))"
proof -
  have n: "is_num (g (v1 t))" "is_num (g (v2 t))" "is_num (g (v3 t))"
    using assms by (simp_all add: tri_num_def)
  have m: "is_num (dmin (g (v2 t)) (g (v3 t)))" using n by (intro dmin_props)
  show "is_num (lo3 g t)" unfolding lo3_def using n m by (intro dmin_props)
  show "dle (lo3 g t) (g (v1 t))" unfolding lo3_def using n m by (intro dmin_props)
  have "dle (lo3 g t) (dmin (g (v2 t)) (g (v3 t)))" unfolding lo3_def using n m by (intro dmin_props)
  then show "dle (lo3 g t) (g (v2 t))" "dle (lo3 g t) (g (v3 t))"
    using dmin_props(2,3) [OF n(2,3)] by (blast intro: dle_trans)+
qed

lemma hi3_props:
  assumes "tri_num g t"
  shows "is_num (hi3 g t)" "dle (g (v1 t)) (hi3 g t)" "dle (g (v2 t)) (hi3 g t)" "dle (g (v3 t)) (hi3 g t)"
proof -
  have n: "is_num (g (v1 t))" "is_num (g (v2 t))" "is_num (g (v3 t))"
    using assms by (simp_all add: tri_num_def)
  have m: "is_num (dmax (g (v2 t)) (g (v3 t)))" using n by (intro dmax_props)
  show "is_num (hi3 g t)" unfolding hi3_def using n m by (intro dmax_props)
  show "dle (g (v1 t)) (hi3 g t)" unfolding hi3_def using n m by (intro dmax_props)
  have "dle (dmax (g (v2 t)) (g (v3 t))) (hi3 g t)" unfolding hi3_def using n m by (intro dmax_props)
  then show "dle (g (v2 t)) (hi3 g t)" "dle (g (v3 t)) (hi3 g t)"
    using dmax_props(2,3) [OF n(2,3)] by (blast intro: dle_trans)+
qed

lemma fold_lo_props:
  assumes "is_num a" "\<forall>t\<in>set ts. tri_num g t"
  shows "is_num (fold_lo g a ts) \<and> dle (fold_lo g a ts) a \<and>
         (\<forall>t\<in>set ts. dle (fold_lo g a ts) (lo3 g t))"
  using assms
proof (induction ts arbitrary: a)
  case Nil
  then show ?case by (simp add: fold_lo_def dle_refl)
next
  case (Cons t ts)
  have t: "tri_num g t" using Cons.prems by simp
  have n: "is_num (dmin a (lo3 g t))" "dle (dmin a (lo3 g t)) a" "dle (dmin a (lo3 g t)) (lo3 g t)"
    using Cons.prems(1) lo3_props(1) [OF t] by (auto intro: dmin_props)
  have ih: "is_num (fold_lo g (dmin a (lo3 g t)) ts)"
    "dle (fold_lo g (dmin a (lo3 g t)) ts) (dmin a (lo3 g t))"
    "\<forall>u\<in>set ts. dle (fold_lo g (dmin a (lo3 g t)) ts) (lo3 g u)"
    using Cons.IH [OF n(1)] Cons.prems(2) by auto
  have e: "fold_lo g a (t # ts) = fold_lo g (dmin a (lo3 g t)) ts" by (simp add: fold_lo_def)
  show ?case unfolding e using ih n by (auto intro: dle_trans)
qed

lemma fold_hi_props:
  assumes "is_num a" "\<forall>t\<in>set ts. tri_num g t"
  shows "is_num (fold_hi g a ts) \<and> dle a (fold_hi g a ts) \<and>
         (\<forall>t\<in>set ts. dle (hi3 g t) (fold_hi g a ts))"
  using assms
proof (induction ts arbitrary: a)
  case Nil
  then show ?case by (simp add: fold_hi_def dle_refl)
next
  case (Cons t ts)
  have t: "tri_num g t" using Cons.prems by simp
  have n: "is_num (dmax a (hi3 g t))" "dle a (dmax a (hi3 g t))" "dle (hi3 g t) (dmax a (hi3 g t))"
    using Cons.prems(1) hi3_props(1) [OF t] by (auto intro: dmax_props)
  have ih: "is_num (fold_hi g (dmax a (hi3 g t)) ts)"
    "dle (dmax a (hi3 g t)) (fold_hi g (dmax a (hi3 g t)) ts)"
    "\<forall>u\<in>set ts. dle (hi3 g u) (fold_hi g (dmax a (hi3 g t)) ts)"
    using Cons.IH [OF n(1)] Cons.prems(2) by auto
  have e: "fold_hi g a (t # ts) = fold_hi g (dmax a (hi3 g t)) ts" by (simp add: fold_hi_def)
  show ?case unfolding e using ih n by (auto intro: dle_trans)
qed

lemma bbox_fold:
  "foldl bbox_step (a, b, c, d, e, f) ts =
     (fold_lo vx a ts, fold_lo vy b ts, fold_lo vz c ts,
      fold_hi vx d ts, fold_hi vy e ts, fold_hi vz f ts)"
  by (induction ts arbitrary: a b c d e f)
     (simp_all add: fold_lo_def fold_hi_def lo3_def hi3_def)

lemma getBoundingBox_Cons:
  "triangles s = t0 # ts \<Longrightarrow> getBoundingBox s =
     [fold_lo vx (vx (v1 t0)) (t0 # ts), fold_lo vy (vy (v1 t0)) (t0 # ts),
      fold_lo vz (vz (v1 t0)) (t0 # ts),
      fold_hi vx (vx (v1 t0)) (t0 # ts), fold_hi vy (vy (v1 t0)) (t0 # ts),
      fold_hi vz (vz (v1 t0)) (t0 # ts)]"
  by (simp add: getBoundingBox_def bbox_fold del: foldl_Cons)

lemma getBoundingBox_Nil:
  "triangles s = [] \<Longrightarrow> getBoundingBox s = [Fin 0, Fin 0, Fin 0, Fin 0, Fin 0, Fin 0]"
  by (simp add: getBoundingBox_def lit_def rnd_zero)

lemma length_getBoundingBox: "length (getBoundingBox s) = 6"
  by (cases "triangles s") (simp_all add: getBoundingBox_Nil getBoundingBox_Cons)

lemma mesh_num_tri:
  "mesh_num ts \<Longrightarrow> t \<in> set ts \<Longrightarrow> tri_num vx t \<and> tri_num vy t \<and> tri_num vz t"
  by (cases t) (auto simp: mesh_num_def list_all_iff tri_num_def)

lemma axis_props:
  assumes "\<forall>t\<in>set (t0 # ts). tri_num g t"
  defines "lo \<equiv> fold_lo g (g (v1 t0)) (t0 # ts)"
      and "hi \<equiv> fold_hi g (g (v1 t0)) (t0 # ts)"
  shows "is_num lo" "is_num hi" "dle lo hi"
    "\<forall>t\<in>set (t0 # ts). \<forall>p\<in>set [v1 t, v2 t, v3 t]. dle lo (g p) \<and> dle (g p) hi"
proof -
  have a: "is_num (g (v1 t0))" using assms(1) by (simp add: tri_num_def)
  note l = fold_lo_props [OF a assms(1), folded lo_def]
  note h = fold_hi_props [OF a assms(1), folded hi_def]
  show "is_num lo" "is_num hi" using l h by simp_all
  show "dle lo hi" using l h by (blast intro: dle_trans)
  show "\<forall>t\<in>set (t0 # ts). \<forall>p\<in>set [v1 t, v2 t, v3 t]. dle lo (g p) \<and> dle (g p) hi"
  proof (intro ballI)
    fix t p
    assume t: "t \<in> set (t0 # ts)" and p: "p \<in> set [v1 t, v2 t, v3 t]"
    have tn: "tri_num g t" using assms(1) t by blast
    have "dle lo (lo3 g t)" "dle (hi3 g t) hi" using l h t by blast+
    moreover have "dle (lo3 g t) (g p)" "dle (g p) (hi3 g t)"
      using p lo3_props [OF tn] hi3_props [OF tn] by auto
    ultimately show "dle lo (g p) \<and> dle (g p) hi" by (blast intro: dle_trans)
  qed
qed

lemma crosses_candidate:
  assumes "tri_num vz tri"
  shows "crosses tri z \<longleftrightarrow> candidate tri z"
proof (cases "is_num z")
  case False
  then have "\<And>a. \<not> dle a z" "\<And>a. \<not> dle z a" using dle_is_num by blast+
  then show ?thesis by (simp add: crosses_def candidate_def brackets_def)
next
  case True
  have n: "is_num (vz (v1 tri))" "is_num (vz (v2 tri))" "is_num (vz (v3 tri))"
    using assms by (simp_all add: tri_num_def)
  show ?thesis
    unfolding crosses_def candidate_def brackets_def
    using dle_total [OF n(1) True] dle_total [OF n(2) True] dle_total [OF n(3) True]
    by blast
qed

lemma scan_eq:
  "scan ts z acc = acc @ map (\<lambda>t. calculateIntersection t z) (filter (\<lambda>t. crosses t z) ts)"
  by (induction ts arbitrary: acc) simp_all

lemma scan_vz: "\<forall>p\<in>set (scan ts z []). vz p = z"
  by (auto simp: scan_eq calculateIntersection_def Let_def)

section \<open>The two counting loops\<close>

lemma infill_loop_induct:
  assumes step: "\<And>f x maxX step minY maxY z lines r.
      (\<And>x maxX step minY maxY z lines r.
          f x maxX step minY maxY z lines = Some r \<Longrightarrow> P x maxX step minY maxY z lines r) \<Longrightarrow>
      (if dle x maxX
       then f (dadd x step) maxX step minY maxY z
              (lines @ [[Vector3 x minY z, Vector3 x maxY z]])
       else Some lines) = Some r \<Longrightarrow>
      P x maxX step minY maxY z lines r"
    and res: "infill_loop x maxX step minY maxY z lines = Some r"
  shows "P x maxX step minY maxY z lines r"
proof -
  have "(case ((((((x, maxX), step), minY), maxY), z), lines) of
          (a, lines') \<Rightarrow> (case a of (a, z') \<Rightarrow> (case a of (a, maxY') \<Rightarrow> (case a of (a, minY') \<Rightarrow>
             (case a of (a, step') \<Rightarrow> (case a of (x', maxX') \<Rightarrow> P x' maxX') step') minY') maxY') z') lines') r"
    apply (rule infill_loop.raw_induct [where P = P])
     apply (rule step)
      apply assumption
     apply assumption
    apply (simp only: prod.case res)
    done
  then show ?thesis by (simp only: prod.case)
qed

lemma upt_0_Suc_map: "[0..<Suc n] = 0 # map Suc [0..<n]"
  by (simp add: upt_conv_Cons map_Suc_upt del: upt_Suc)

lemma funpow_shift: "(f ^^ Suc k) x = (f ^^ k) (f x)"
  by (simp add: funpow_swap1)

lemma exits_0: "exits f hi v 0 \<longleftrightarrow> \<not> dle v hi"
  by (simp add: exits_def)

lemma exits_Suc: "exits f hi v (Suc n) \<longleftrightarrow> dle v hi \<and> exits f hi (f v) n"
proof
  assume e: "exits f hi v (Suc n)"
  have "dle v hi" using e [unfolded exits_def, THEN conjunct1, rule_format, of 0] by simp
  moreover have "\<forall>k<n. dle ((f ^^ k) (f v)) hi"
  proof (intro allI impI)
    fix k assume "k < n"
    then have "dle ((f ^^ Suc k) v) hi" using e unfolding exits_def by blast
    then show "dle ((f ^^ k) (f v)) hi" unfolding funpow_shift .
  qed
  moreover have "\<not> dle ((f ^^ n) (f v)) hi"
    using e unfolding exits_def funpow_shift by blast
  ultimately show "dle v hi \<and> exits f hi (f v) n" by (simp add: exits_def)
next
  assume a: "dle v hi \<and> exits f hi (f v) n"
  have "\<forall>k<Suc n. dle ((f ^^ k) v) hi"
  proof (intro allI impI)
    fix k assume k: "k < Suc n"
    show "dle ((f ^^ k) v) hi"
    proof (cases k)
      case 0 then show ?thesis using a by simp
    next
      case (Suc j)
      then have "dle ((f ^^ j) (f v)) hi" using k a by (simp add: exits_def)
      then show ?thesis unfolding Suc funpow_shift .
    qed
  qed
  moreover have "\<not> dle ((f ^^ Suc n) v) hi"
    using a unfolding exits_def funpow_shift by blast
  ultimately show "exits f hi v (Suc n)" unfolding exits_def by blast
qed

text \<open>The exit index of a loop is unique.\<close>

lemma exits_unique: "exits f hi v n \<Longrightarrow> exits f hi v m \<Longrightarrow> n = m"
proof (rule ccontr)
  assume e: "exits f hi v n" "exits f hi v m" and ne: "n \<noteq> m"
  then consider "n < m" | "m < n" by linarith
  then show False
  proof cases
    case 1 then show False using e unfolding exits_def by blast
  next
    case 2 then show False using e unfolding exits_def by blast
  qed
qed

lemma infill_loop_unroll:
  assumes "exits (\<lambda>x. dadd x step) maxX x n"
  shows "infill_loop x maxX step minY maxY z lines =
    Some (lines @ map (\<lambda>k. [Vector3 (((\<lambda>x. dadd x step) ^^ k) x) minY z,
                            Vector3 (((\<lambda>x. dadd x step) ^^ k) x) maxY z]) [0..<n])"
  using assms
proof (induction n arbitrary: x lines)
  case 0
  then show ?case by (subst infill_loop.simps) (simp add: exits_0)
next
  case (Suc n)
  define f where "f = (\<lambda>x. dadd x step)"
  have fx: "dadd x step = f x" by (simp add: f_def)
  have x: "dle x maxX" and e: "exits f maxX (f x) n"
    using Suc.prems unfolding f_def [symmetric] exits_Suc by simp_all
  have m: "map (\<lambda>k. [Vector3 ((f ^^ k) x) minY z, Vector3 ((f ^^ k) x) maxY z]) [0..<Suc n] =
       [Vector3 x minY z, Vector3 x maxY z] #
       map (\<lambda>k. [Vector3 ((f ^^ k) (f x)) minY z, Vector3 ((f ^^ k) (f x)) maxY z]) [0..<n]"
    unfolding upt_0_Suc_map by (simp add: o_def funpow_shift del: funpow.simps)
  note ih = Suc.IH [of "f x" "lines @ [[Vector3 x minY z, Vector3 x maxY z]]",
      folded f_def, OF e]
  have "infill_loop x maxX step minY maxY z lines =
     infill_loop (f x) maxX step minY maxY z (lines @ [[Vector3 x minY z, Vector3 x maxY z]])"
    by (subst infill_loop.simps) (simp only: x fx if_True)
  also note ih
  finally show ?case unfolding f_def [symmetric] m by simp
qed

lemma infill_loop_Some:
  assumes "infill_loop x maxX step minY maxY z lines = Some r"
  shows "\<exists>n. exits (\<lambda>x. dadd x step) maxX x n \<and>
             r = lines @ map (\<lambda>k. [Vector3 (((\<lambda>x. dadd x step) ^^ k) x) minY z,
                                     Vector3 (((\<lambda>x. dadd x step) ^^ k) x) maxY z]) [0..<n]"
proof -
  define P where "P = (\<lambda>x (maxX::double) step minY maxY z lines r.
      \<exists>n. exits (\<lambda>x. dadd x step) maxX x n \<and>
             r = lines @ map (\<lambda>k. [Vector3 (((\<lambda>x. dadd x step) ^^ k) x) minY z,
                                     Vector3 (((\<lambda>x. dadd x step) ^^ k) x) maxY z]) [0..<n])"
  have "P x maxX step minY maxY z lines r"
  proof (rule infill_loop_induct [where P = P, OF _ assms])
    fix g x maxX step minY maxY z lines r
    assume ih: "\<And>x maxX step minY maxY z lines r.
          g x maxX step minY maxY z lines = Some r \<Longrightarrow> P x maxX step minY maxY z lines r"
      and eq: "(if dle x maxX
       then g (dadd x step) maxX step minY maxY z
              (lines @ [[Vector3 x minY z, Vector3 x maxY z]])
       else Some lines) = Some r"
    define f where "f = (\<lambda>x. dadd x step)"
    have fx: "dadd x step = f x" by (simp add: f_def)
    show "P x maxX step minY maxY z lines r"
    proof (cases "dle x maxX")
      case False
      with eq have "r = lines" by simp
      with False show ?thesis unfolding P_def by (intro exI [of _ 0]) (simp add: exits_0)
    next
      case True
      with eq have "g (dadd x step) maxX step minY maxY z
          (lines @ [[Vector3 x minY z, Vector3 x maxY z]]) = Some r" by simp
      from ih [OF this] obtain n where n:
        "exits f maxX (f x) n"
        "r = (lines @ [[Vector3 x minY z, Vector3 x maxY z]]) @
             map (\<lambda>k. [Vector3 ((f ^^ k) (f x)) minY z, Vector3 ((f ^^ k) (f x)) maxY z]) [0..<n]"
        unfolding P_def f_def by (elim exE conjE)
      have a: "exits f maxX x (Suc n)" using True n(1) by (simp add: exits_Suc)
      have c: "r = lines @ map (\<lambda>k. [Vector3 ((f ^^ k) x) minY z, Vector3 ((f ^^ k) x) maxY z]) [0..<Suc n]"
        unfolding n(2) upt_0_Suc_map by (simp add: o_def funpow_shift del: funpow.simps)
      show ?thesis unfolding P_def f_def [symmetric]
        by (rule exI [of _ "Suc n"]) (intro conjI a c)
    qed
  qed
  then show ?thesis by (simp add: P_def)
qed

lemma storage_append: "storage (xs @ ys) = storage xs + storage ys"
  by (simp add: storage_def)

lemma doubles_of_pos: "0 < doubles_of layer"
  by (simp add: doubles_of_def)

lemma length_le_storage: "length layers \<le> storage layers"
proof (induction layers)
  case Nil
  show ?case by simp
next
  case (Cons l ls)
  then show ?case using doubles_of_pos [of l] by (simp add: storage_def)
qed

lemma slice_loop_unroll:
  assumes "exits (\<lambda>z. dadd z (layerHeight s)) maxZ z n"
    and "\<forall>k<n. slice_layer s (((\<lambda>z. dadd z (layerHeight s)) ^^ k) z) = Some (L k)"
    and "storage (layers @ map L [0..<n]) \<le> mem"
  shows "slice_loop mem s z maxZ layers = Some (Inr (layers @ map L [0..<n]))"
  using assms
proof (induction n arbitrary: z layers L)
  case 0
  then show ?case by (subst slice_loop.simps) (simp add: exits_0)
next
  case (Suc n)
  define f where "f = (\<lambda>z. dadd z (layerHeight s))"
  have fz: "dadd z (layerHeight s) = f z" by (simp add: f_def)
  have z: "dle z maxZ" and e: "exits f maxZ (f z) n"
    using Suc.prems(1) unfolding f_def [symmetric] exits_Suc by simp_all
  have l0: "slice_layer s z = Some (L 0)"
    using Suc.prems(2) [rule_format, of 0] by simp
  have a: "\<forall>k<n. slice_layer s ((f ^^ k) (f z)) = Some ((L \<circ> Suc) k)"
  proof (intro allI impI)
    fix k assume "k < n"
    then have "slice_layer s ((f ^^ Suc k) z) = Some (L (Suc k))"
      using Suc.prems(2) unfolding f_def [symmetric] by blast
    then show "slice_layer s ((f ^^ k) (f z)) = Some ((L \<circ> Suc) k)"
      unfolding funpow_shift o_def .
  qed
  have m: "storage ((layers @ [L 0]) @ map (L \<circ> Suc) [0..<n]) \<le> mem"
    using Suc.prems(3) unfolding upt_0_Suc_map by (simp add: o_def)
  then have st: "storage (layers @ [L 0]) \<le> mem"
    by (simp add: storage_def)
  note ih = Suc.IH [of "f z" "L \<circ> Suc" "layers @ [L 0]", folded f_def, OF e a m]
  have "slice_loop mem s z maxZ layers = slice_loop mem s (f z) maxZ (layers @ [L 0])"
    by (subst slice_loop.simps) (simp add: z l0 fz st)
  also note ih
  finally show ?case unfolding upt_0_Suc_map by simp
qed

text \<open>The loop ends in the allocation failure when the layers do not fit the heap.\<close>

lemma slice_loop_fails:
  assumes "exits (\<lambda>z. dadd z (layerHeight s)) maxZ z n"
    and "\<forall>k<n. slice_layer s (((\<lambda>z. dadd z (layerHeight s)) ^^ k) z) = Some (L k)"
    and "storage layers \<le> mem" "mem < storage (layers @ map L [0..<n])"
  shows "slice_loop mem s z maxZ layers = Some (Inl Bad_alloc)"
  using assms
proof (induction n arbitrary: z layers L)
  case 0
  then show ?case by simp
next
  case (Suc n)
  define f where "f = (\<lambda>z. dadd z (layerHeight s))"
  have fz: "dadd z (layerHeight s) = f z" by (simp add: f_def)
  have z: "dle z maxZ" and e: "exits f maxZ (f z) n"
    using Suc.prems(1) unfolding f_def [symmetric] exits_Suc by simp_all
  have l0: "slice_layer s z = Some (L 0)"
    using Suc.prems(2) [rule_format, of 0] by simp
  have a: "\<forall>k<n. slice_layer s ((f ^^ k) (f z)) = Some ((L \<circ> Suc) k)"
  proof (intro allI impI)
    fix k assume "k < n"
    then have "slice_layer s ((f ^^ Suc k) z) = Some (L (Suc k))"
      using Suc.prems(2) unfolding f_def [symmetric] by blast
    then show "slice_layer s ((f ^^ k) (f z)) = Some ((L \<circ> Suc) k)"
      unfolding funpow_shift o_def .
  qed
  have m: "mem < storage ((layers @ [L 0]) @ map (L \<circ> Suc) [0..<n])"
    using Suc.prems(4) unfolding upt_0_Suc_map by (simp add: o_def)
  show ?case
  proof (cases "storage (layers @ [L 0]) \<le> mem")
    case True
    note ih = Suc.IH [of "f z" "L \<circ> Suc" "layers @ [L 0]", folded f_def, OF e a True m]
    have "slice_loop mem s z maxZ layers = slice_loop mem s (f z) maxZ (layers @ [L 0])"
      by (subst slice_loop.simps) (simp add: z l0 fz True)
    then show ?thesis using ih by simp
  next
    case False
    show ?thesis by (subst slice_loop.simps) (simp add: z l0 False)
  qed
qed

lemma slice_loop_Some:
  assumes "slice_loop mem s z maxZ layers = Some res"
  shows "(\<forall>r. res = Inr r \<longrightarrow>
           (\<exists>n L. exits (\<lambda>z. dadd z (layerHeight s)) maxZ z n \<and>
             (\<forall>k<n. slice_layer s (((\<lambda>z. dadd z (layerHeight s)) ^^ k) z) = Some (L k)) \<and>
             r = layers @ map L [0..<n] \<and> (0 < n \<longrightarrow> storage r \<le> mem))) \<and>
         (\<forall>e. res = Inl e \<longrightarrow> e = Bad_alloc)"
proof -
  define P where "P = (\<lambda>(mem::nat) s z maxZ layers res.
      (\<forall>r. res = Inr r \<longrightarrow>
           (\<exists>n L. exits (\<lambda>z. dadd z (layerHeight s)) maxZ z n \<and>
             (\<forall>k<n. slice_layer s (((\<lambda>z. dadd z (layerHeight s)) ^^ k) z) = Some (L k)) \<and>
             r = layers @ map L [0..<n] \<and> (0 < n \<longrightarrow> storage r \<le> mem))) \<and>
         (\<forall>e. res = Inl e \<longrightarrow> e = Bad_alloc))"
  have "P mem s z maxZ layers res"
  proof (rule slice_loop.raw_induct [where P = P, OF _ assms])
    fix g mem s z maxZ layers res
    assume ih: "\<And>mem s z maxZ layers res. g mem s z maxZ layers = Some res \<Longrightarrow> P mem s z maxZ layers res"
      and eq: "(if dle z maxZ
        then Option.bind (slice_layer s z)
               (\<lambda>layer. if storage (layers @ [layer]) \<le> mem
                        then g mem s (dadd z (layerHeight s)) maxZ (layers @ [layer])
                        else Some (Inl Bad_alloc))
        else Some (Inr layers)) = Some res"
    define f where "f = (\<lambda>z. dadd z (layerHeight s))"
    have fz: "dadd z (layerHeight s) = f z" by (simp add: f_def)
    show "P mem s z maxZ layers res"
    proof (cases "dle z maxZ")
      case False
      with eq have r: "res = Inr layers" by simp
      have "exits f maxZ z 0" using False by (simp add: exits_0)
      then show ?thesis unfolding P_def f_def [symmetric] r
        by (intro conjI allI impI exI [of _ 0]) simp_all
    next
      case True
      with eq obtain layer where l: "slice_layer s z = Some layer"
        "(if storage (layers @ [layer]) \<le> mem
          then g mem s (dadd z (layerHeight s)) maxZ (layers @ [layer])
          else Some (Inl Bad_alloc)) = Some res"
        by (auto simp: bind_eq_Some_conv)
      show ?thesis
      proof (cases "storage (layers @ [layer]) \<le> mem")
        case nofit: False
        with l(2) have "res = Inl Bad_alloc" by simp
        then show ?thesis unfolding P_def by simp
      next
        case fits: True
        with l(2) have "g mem s (dadd z (layerHeight s)) maxZ (layers @ [layer]) = Some res" by simp
        note p = ih [OF this, unfolded P_def, folded f_def]
        have 2: "\<forall>e. res = Inl e \<longrightarrow> e = Bad_alloc" using p by blast
        have 1: "\<exists>n L. exits f maxZ z n \<and> (\<forall>k<n. slice_layer s ((f ^^ k) z) = Some (L k)) \<and>
             r = layers @ map L [0..<n] \<and> (0 < n \<longrightarrow> storage r \<le> mem)"
          if r: "res = Inr r" for r
        proof -
          from p r have "\<exists>n L. exits f maxZ (f z) n \<and>
              (\<forall>k<n. slice_layer s ((f ^^ k) (f z)) = Some (L k)) \<and>
              r = (layers @ [layer]) @ map L [0..<n] \<and> (0 < n \<longrightarrow> storage r \<le> mem)"
            unfolding fz by blast
          then obtain n L where n:
            "exits f maxZ (f z) n"
            "\<forall>k<n. slice_layer s ((f ^^ k) (f z)) = Some (L k)"
            "r = (layers @ [layer]) @ map L [0..<n]"
            "0 < n \<longrightarrow> storage r \<le> mem"
            by (elim exE conjE)
          define L' where "L' = (\<lambda>k. case k of 0 \<Rightarrow> layer | Suc j \<Rightarrow> L j)"
          have a: "exits f maxZ z (Suc n)" using True n(1) by (simp add: exits_Suc)
          have b: "\<forall>k<Suc n. slice_layer s ((f ^^ k) z) = Some (L' k)"
          proof (intro allI impI)
            fix k assume k: "k < Suc n"
            show "slice_layer s ((f ^^ k) z) = Some (L' k)"
            proof (cases k)
              case 0 then show ?thesis using l(1) by (simp add: L'_def)
            next
              case (Suc j)
              then have "slice_layer s ((f ^^ j) (f z)) = Some (L j)"
                using k n(2) by simp
              moreover have "L' (Suc j) = L j" by (simp add: L'_def)
              ultimately show ?thesis unfolding Suc funpow_shift by simp
            qed
          qed
          have c: "r = layers @ map L' [0..<Suc n]"
            unfolding n(3) upt_0_Suc_map by (simp add: L'_def o_def)
          have d: "storage r \<le> mem"
          proof (cases n)
            case 0 then show ?thesis using fits n(3) by simp
          next
            case (Suc j) then show ?thesis using n(4) by simp
          qed
          show ?thesis
            by (rule exI [of _ "Suc n"], rule exI [of _ L']) (intro conjI a b c impI d)
        qed
        show ?thesis unfolding P_def f_def [symmetric] using 1 2 by blast
      qed
    qed
  qed
  then show ?thesis by (simp add: P_def)
qed

section \<open>Termination of a counting loop\<close>

text \<open>Between a finite double and the same plus a step of at least \<open>1 / 2 ^ 30\<close> lies
  a multiple of \<open>1 / 2 ^ 30\<close>, which is a double: the rounded sum is beyond it.\<close>

lemma grid_step:
  assumes a: "- (2 ^ 22) \<le> a" "a \<le> 2 ^ 22" and r: "1 / 2 ^ 30 \<le> r"
  shows "dadd (Fin a) (Fin r) = PInf \<or>
         (\<exists>a'. dadd (Fin a) (Fin r) = Fin a' \<and> a < a' \<and> \<lfloor>a * 2 ^ 30\<rfloor> + 1 \<le> \<lfloor>a' * 2 ^ 30\<rfloor>)"
proof -
  define m where "m = \<lfloor>a * 2 ^ 30\<rfloor> + 1"
  define d :: real where "d = of_int m / 2 ^ 30"
  have "- (2 ^ 52) \<le> a * 2 ^ 30" "a * 2 ^ 30 \<le> 2 ^ 52" using a by simp_all
  then have "- (2 ^ 52) \<le> \<lfloor>a * 2 ^ 30\<rfloor> \<and> \<lfloor>a * 2 ^ 30\<rfloor> \<le> 2 ^ 52"
    by (subst le_floor_iff, subst floor_le_iff) simp
  moreover define g where "g = \<lfloor>a * 2 ^ 30\<rfloor>"
  ultimately have "- (2 ^ 52) \<le> g \<and> g \<le> 2 ^ 52" by simp
  then have "\<bar>g + 1\<bar> < 2 ^ 53" by simp linarith
  then have mb: "\<bar>m\<bar> < 2 ^ 53" by (simp only: m_def g_def)
  have rd: "rnd d = Fin d" unfolding d_def by (rule rnd_grid [OF _ mb]) simp
  have "a * 2 ^ 30 < of_int m" "of_int m \<le> a * 2 ^ 30 + 1"
    unfolding m_def by linarith+
  then have ad: "a < d" "d \<le> a + 1 / 2 ^ 30" by (simp_all add: d_def field_simps)
  then have "d \<le> a + r" using r by linarith
  then have le: "dle (Fin d) (rnd (a + r))" using rnd_mono [of d "a + r"] rd by simp
  show ?thesis
  proof (cases "rnd (a + r)")
    case (Fin a')
    with le have da: "d \<le> a'" by simp
    then have "of_int m \<le> a' * 2 ^ 30" by (simp add: d_def field_simps)
    then have "m \<le> \<lfloor>a' * 2 ^ 30\<rfloor>" by (simp add: le_floor_iff)
    then show ?thesis using Fin ad da by (simp add: m_def)
  next
    case PInf then show ?thesis by simp
  next
    case NInf with le show ?thesis by simp
  next
    case NaN with le show ?thesis by simp
  qed
qed

lemma loop_exit_aux:
  assumes s: "step_ok step" and b: "b \<le> 2 ^ 22"
  shows "- (2 ^ 22) \<le> a \<Longrightarrow> (a \<le> b \<longrightarrow> \<lfloor>b * 2 ^ 30\<rfloor> - \<lfloor>a * 2 ^ 30\<rfloor> < int m) \<Longrightarrow>
         \<exists>n. exits (\<lambda>x. dadd x step) (Fin b) (Fin a) n"
proof (induction m arbitrary: a)
  case 0
  have "\<not> a \<le> b"
  proof
    assume "a \<le> b"
    then have "\<lfloor>a * 2 ^ 30\<rfloor> \<le> \<lfloor>b * 2 ^ 30\<rfloor>" by (intro floor_mono) simp
    with 0 \<open>a \<le> b\<close> show False by simp
  qed
  then show ?case by (intro exI [of _ 0]) (simp add: exits_0)
next
  case (Suc m)
  show ?case
  proof (cases "a \<le> b")
    case False
    then show ?thesis by (intro exI [of _ 0]) (simp add: exits_0)
  next
    case True
    show ?thesis
    proof (cases step)
      case (Fin r)
      with s have r: "1 / 2 ^ 30 \<le> r" by simp
      have a2: "a \<le> 2 ^ 22" using True b by simp
      from grid_step [OF Suc.prems(1) a2 r] show ?thesis
      proof (elim disjE exE conjE)
        assume "dadd (Fin a) (Fin r) = PInf"
        then have "exits (\<lambda>x. dadd x step) (Fin b) (Fin a) (Suc 0)"
          using True Fin by (simp add: exits_Suc exits_0)
        then show ?thesis by blast
      next
        fix a'
        assume a': "dadd (Fin a) (Fin r) = Fin a'" "a < a'" "\<lfloor>a * 2 ^ 30\<rfloor> + 1 \<le> \<lfloor>a' * 2 ^ 30\<rfloor>"
        have "- (2 ^ 22) \<le> a'" using Suc.prems(1) a'(2) by simp
        moreover have "a' \<le> b \<longrightarrow> \<lfloor>b * 2 ^ 30\<rfloor> - \<lfloor>a' * 2 ^ 30\<rfloor> < int m"
          using Suc.prems(2) True a'(3) by simp
        ultimately obtain n where "exits (\<lambda>x. dadd x step) (Fin b) (Fin a') n"
          using Suc.IH by blast
        then have "exits (\<lambda>x. dadd x step) (Fin b) (Fin a) (Suc n)"
          using True a'(1) Fin by (simp add: exits_Suc)
        then show ?thesis by blast
      qed
    next
      case PInf
      then have "exits (\<lambda>x. dadd x step) (Fin b) (Fin a) (Suc 0)"
        using True by (simp add: exits_Suc exits_0)
      then show ?thesis by blast
    next
      case NInf with s show ?thesis by simp
    next
      case NaN with s show ?thesis by simp
    qed
  qed
qed

lemma loop_exit:
  assumes "step_ok step" "bounded_by (2 ^ 22) v" "bounded_by (2 ^ 22) hi"
  shows "\<exists>n. exits (\<lambda>x. dadd x step) hi v n"
proof -
  obtain a where a: "v = Fin a" "\<bar>a\<bar> \<le> 2 ^ 22" using assms(2) by (cases v) simp_all
  obtain b where b: "hi = Fin b" "\<bar>b\<bar> \<le> 2 ^ 22" using assms(3) by (cases hi) simp_all
  have "\<exists>n. exits (\<lambda>x. dadd x step) (Fin b) (Fin a) n"
  proof (rule loop_exit_aux [OF assms(1), where m = "nat (\<lfloor>b * 2 ^ 30\<rfloor> - \<lfloor>a * 2 ^ 30\<rfloor>) + 1"])
    show "b \<le> 2 ^ 22" using b by simp
    show "- (2 ^ 22) \<le> a" using a by simp
    show "a \<le> b \<longrightarrow> \<lfloor>b * 2 ^ 30\<rfloor> - \<lfloor>a * 2 ^ 30\<rfloor> < int (nat (\<lfloor>b * 2 ^ 30\<rfloor> - \<lfloor>a * 2 ^ 30\<rfloor>) + 1)"
      by simp
  qed
  then show ?thesis by (simp add: a b)
qed

section \<open>Bounds of a bounded mesh\<close>

lemma fold_lo_cases:
  assumes "P a" "\<forall>t\<in>set ts. P (g (v1 t)) \<and> P (g (v2 t)) \<and> P (g (v3 t))"
  shows "P (fold_lo g a ts)"
  using assms
proof (induction ts arbitrary: a)
  case Nil
  then show ?case by (simp add: fold_lo_def)
next
  case (Cons t ts)
  have "P (dmin (g (v2 t)) (g (v3 t)))"
    using Cons.prems by (simp add: dmin_def)
  then have "P (lo3 g t)" using Cons.prems by (simp add: lo3_def dmin_def)
  then have "P (dmin a (lo3 g t))" using Cons.prems by (simp add: dmin_def)
  moreover have "\<forall>t\<in>set ts. P (g (v1 t)) \<and> P (g (v2 t)) \<and> P (g (v3 t))"
    using Cons.prems(2) by simp
  ultimately have "P (fold_lo g (dmin a (lo3 g t)) ts)" by (rule Cons.IH)
  then show ?case by (simp add: fold_lo_def)
qed

lemma fold_hi_cases:
  assumes "P a" "\<forall>t\<in>set ts. P (g (v1 t)) \<and> P (g (v2 t)) \<and> P (g (v3 t))"
  shows "P (fold_hi g a ts)"
  using assms
proof (induction ts arbitrary: a)
  case Nil
  then show ?case by (simp add: fold_hi_def)
next
  case (Cons t ts)
  have "P (dmax (g (v2 t)) (g (v3 t)))"
    using Cons.prems by (simp add: dmax_def)
  then have "P (hi3 g t)" using Cons.prems by (simp add: hi3_def dmax_def)
  then have "P (dmax a (hi3 g t))" using Cons.prems by (simp add: dmax_def)
  moreover have "\<forall>t\<in>set ts. P (g (v1 t)) \<and> P (g (v2 t)) \<and> P (g (v3 t))"
    using Cons.prems(2) by simp
  ultimately have "P (fold_hi g (dmax a (hi3 g t)) ts)" by (rule Cons.IH)
  then show ?case by (simp add: fold_hi_def)
qed

lemma coords_mem:
  "vx (v1 t) \<in> set (coords t)" "vx (v2 t) \<in> set (coords t)" "vx (v3 t) \<in> set (coords t)"
  "vy (v1 t) \<in> set (coords t)" "vy (v2 t) \<in> set (coords t)" "vy (v3 t) \<in> set (coords t)"
  "vz (v1 t) \<in> set (coords t)" "vz (v2 t) \<in> set (coords t)" "vz (v3 t) \<in> set (coords t)"
  by (cases t; simp)+

lemma mesh_within_coord:
  assumes "mesh_within B ts" "t \<in> set ts"
  shows "bounded_by B (vx (v1 t))" "bounded_by B (vx (v2 t))" "bounded_by B (vx (v3 t))"
        "bounded_by B (vy (v1 t))" "bounded_by B (vy (v2 t))" "bounded_by B (vy (v3 t))"
        "bounded_by B (vz (v1 t))" "bounded_by B (vz (v2 t))" "bounded_by B (vz (v3 t))"
proof -
  have "\<forall>c\<in>set (coords t). bounded_by B c"
    using assms by (simp add: mesh_within_def list_all_iff)
  then show "bounded_by B (vx (v1 t))" "bounded_by B (vx (v2 t))" "bounded_by B (vx (v3 t))"
        "bounded_by B (vy (v1 t))" "bounded_by B (vy (v2 t))" "bounded_by B (vy (v3 t))"
        "bounded_by B (vz (v1 t))" "bounded_by B (vz (v2 t))" "bounded_by B (vz (v3 t))"
    using coords_mem [of t] by blast+
qed

lemma bounded_by_is_num: "bounded_by B d \<Longrightarrow> is_num d"
  by (cases d) (simp_all add: is_num_def)

lemma mesh_within_num: "mesh_within B ts \<Longrightarrow> mesh_num ts"
  by (auto simp: mesh_within_def mesh_num_def list_all_iff intro: bounded_by_is_num)

lemma getBoundingBox_bounded:
  assumes "mesh_within B (triangles s)" "0 \<le> B" "i < 6"
  shows "bounded_by B (getBoundingBox s ! i)"
proof (cases "triangles s")
  case Nil
  have "getBoundingBox s ! i = Fin 0"
    using assms(3) by (simp add: getBoundingBox_Nil [OF Nil] nth_Cons' )
  then show ?thesis using assms(2) by simp
next
  case (Cons t0 ts)
  have t0: "t0 \<in> set (triangles s)" by (simp add: Cons)
  note c = mesh_within_coord [OF assms(1)]
  have ax: "\<forall>t\<in>set (t0 # ts). bounded_by B (vx (v1 t)) \<and> bounded_by B (vx (v2 t)) \<and> bounded_by B (vx (v3 t))"
    using c(1,2,3) unfolding Cons by blast
  have ay: "\<forall>t\<in>set (t0 # ts). bounded_by B (vy (v1 t)) \<and> bounded_by B (vy (v2 t)) \<and> bounded_by B (vy (v3 t))"
    using c(4,5,6) unfolding Cons by blast
  have az: "\<forall>t\<in>set (t0 # ts). bounded_by B (vz (v1 t)) \<and> bounded_by B (vz (v2 t)) \<and> bounded_by B (vz (v3 t))"
    using c(7,8,9) unfolding Cons by blast
  have b: "bounded_by B (fold_lo vx (vx (v1 t0)) (t0 # ts))"
    "bounded_by B (fold_lo vy (vy (v1 t0)) (t0 # ts))"
    "bounded_by B (fold_lo vz (vz (v1 t0)) (t0 # ts))"
    "bounded_by B (fold_hi vx (vx (v1 t0)) (t0 # ts))"
    "bounded_by B (fold_hi vy (vy (v1 t0)) (t0 # ts))"
    "bounded_by B (fold_hi vz (vz (v1 t0)) (t0 # ts))"
    by (rule fold_lo_cases [OF c(1) [OF t0] ax] fold_lo_cases [OF c(4) [OF t0] ay]
          fold_lo_cases [OF c(7) [OF t0] az] fold_hi_cases [OF c(1) [OF t0] ax]
          fold_hi_cases [OF c(4) [OF t0] ay] fold_hi_cases [OF c(7) [OF t0] az])+
  show ?thesis using b assms(3) by (simp add: getBoundingBox_Cons [OF Cons] nth_Cons')
qed

section \<open>When the loops end\<close>

lemma lit_exact: "lit 0 = Fin 0" "lit 1 = Fin 1" "lit 2 = Fin 2" "lit 10 = Fin 10"
  "lit 20 = Fin 20" "lit 100 = Fin 100"
  by (simp_all add: rnd_eval)

lemma infill_step_ok:
  assumes "density_ok (infillDensity s)"
  shows "step_ok (infill_step s)"
proof -
  obtain d where d: "infillDensity s = Fin d" "0 < d" "d \<le> 100"
    using assms by (cases "infillDensity s") simp_all
  have "dle (rnd 0) (rnd (d / 100))" "dle (rnd (d / 100)) (rnd 1)"
    using d by (intro rnd_mono; simp)+
  then obtain q where q: "rnd (d / 100) = Fin q" "0 \<le> q" "q \<le> 1"
    using lit_exact(1,2) by (cases "rnd (d / 100)") (simp_all add: lit_def)
  have step: "infill_step s = ddiv (Fin 2) (Fin q)"
    by (simp add: infill_step_def d lit_exact q)
  show ?thesis
  proof (cases "q = 0")
    case True
    then show ?thesis by (simp add: step)
  next
    case False
    with q have "2 \<le> 2 / q" by (simp add: le_divide_eq)
    then have "dle (rnd 2) (rnd (2 / q))" by (rule rnd_mono)
    then have "dle (Fin 2) (rnd (2 / q))" using lit_exact(3) by (simp add: lit_def)
    then show ?thesis using False by (cases "rnd (2 / q)") (simp_all add: step)
  qed
qed

lemma generateInfill_eq:
  "generateInfill s contour z =
     infill_loop (getBoundingBox s ! 0) (getBoundingBox s ! 3) (infill_step s)
       (getBoundingBox s ! 1) (getBoundingBox s ! 4) z []"
  by (simp add: generateInfill_def infill_step_def Let_def)

lemma generateInfill_unroll:
  assumes "exits (\<lambda>x. dadd x (infill_step s)) (getBoundingBox s ! 3) (getBoundingBox s ! 0) n"
  shows "generateInfill s contour z = Some (map (\<lambda>k. infill_line s z (infill_x s k)) [0..<n])"
  unfolding generateInfill_eq infill_loop_unroll [OF assms]
  by (simp add: infill_line_def infill_x_def)

lemma generateInfill_Some:
  assumes "generateInfill s contour z = Some lines"
  shows "\<exists>n. exits (\<lambda>x. dadd x (infill_step s)) (getBoundingBox s ! 3) (getBoundingBox s ! 0) n \<and>
             lines = map (\<lambda>k. infill_line s z (infill_x s k)) [0..<n]"
  using infill_loop_Some [OF assms [unfolded generateInfill_eq]]
  by (simp add: infill_line_def infill_x_def)

lemma generateInfill_returns:
  assumes "mesh_within (2 ^ 22) (triangles s)" "density_ok (infillDensity s)"
  shows "\<exists>lines. generateInfill s contour z = Some lines"
proof -
  have "\<exists>n. exits (\<lambda>x. dadd x (infill_step s)) (getBoundingBox s ! 3) (getBoundingBox s ! 0) n"
    using assms by (intro loop_exit infill_step_ok getBoundingBox_bounded) simp_all
  then show ?thesis using generateInfill_unroll by blast
qed

lemma slice_layer_returns:
  assumes "mesh_within (2 ^ 22) (triangles s)" "density_ok (infillDensity s)"
  shows "\<exists>layer. slice_layer s z = Some layer"
proof (cases "scan (triangles s) z [] = []")
  case True
  then show ?thesis by (simp add: slice_layer_def)
next
  case False
  obtain lines where "generateInfill s (scan (triangles s) z []) z = Some lines"
    using generateInfill_returns [OF assms] by blast
  then show ?thesis using False by (simp add: slice_layer_def)
qed

lemma plane_funpow: "((\<lambda>z. dadd z (layerHeight s)) ^^ k) (getBoundingBox s ! 2) = plane s k"
  by (simp add: plane_def)

lemma slice_unroll:
  assumes "exits (\<lambda>z. dadd z (layerHeight s)) (getBoundingBox s ! 5) (getBoundingBox s ! 2) n"
    and "\<forall>k<n. slice_layer s (plane s k) = Some (L k)"
    and "storage (map L [0..<n]) \<le> mem"
  shows "slice mem s = Some (Inr (map L [0..<n]))"
  using slice_loop_unroll [OF assms(1), of L "[]" mem] assms(2,3)
  by (simp add: slice_def plane_def Let_def)

lemma slice_fails:
  assumes "exits (\<lambda>z. dadd z (layerHeight s)) (getBoundingBox s ! 5) (getBoundingBox s ! 2) n"
    and "\<forall>k<n. slice_layer s (plane s k) = Some (L k)"
    and "mem < storage (map L [0..<n])"
  shows "slice mem s = Some (Inl Bad_alloc)"
  using slice_loop_fails [OF assms(1), of L "[]" mem] assms(2,3)
  by (simp add: slice_def plane_def Let_def storage_def)

lemma slice_Some:
  assumes "slice mem s = Some (Inr layers)"
  shows "exits (\<lambda>z. dadd z (layerHeight s)) (getBoundingBox s ! 5) (getBoundingBox s ! 2)
           (length layers) \<and>
         (\<forall>k<length layers. slice_layer s (plane s k) = Some (layers ! k)) \<and>
         storage layers \<le> mem"
proof -
  from assms have "slice_loop mem s (getBoundingBox s ! 2) (getBoundingBox s ! 5) [] = Some (Inr layers)"
    by (simp add: slice_def Let_def)
  from slice_loop_Some [OF this] obtain n L where n:
    "exits (\<lambda>z. dadd z (layerHeight s)) (getBoundingBox s ! 5) (getBoundingBox s ! 2) n"
    "\<forall>k<n. slice_layer s (plane s k) = Some (L k)"
    "layers = map L [0..<n]" "0 < n \<longrightarrow> storage layers \<le> mem"
    unfolding plane_funpow by auto
  have "storage layers \<le> mem" using n(3,4) by (cases n) (simp_all add: storage_def)
  with n show ?thesis by simp
qed

lemma slice_Inl: "slice mem s = Some (Inl e) \<Longrightarrow> e = Bad_alloc"
  using slice_loop_Some [of mem s "getBoundingBox s ! 2" "getBoundingBox s ! 5" "[]" "Inl e"]
  by (simp add: slice_def Let_def)

text \<open>
  In the range where both counting loops end, \<^verbatim>\<open>slice\<close> ends: it returns the layers of
  the planes when the heap holds them, and ends in the allocation failure otherwise.
\<close>

lemma slice_returns:
  assumes "mesh_within (2 ^ 22) (triangles s)" "step_ok (layerHeight s)"
    "density_ok (infillDensity s)"
  shows "\<exists>layers. \<forall>mem. slice mem s =
    (if storage layers \<le> mem then Some (Inr layers) else Some (Inl Bad_alloc))"
proof -
  obtain n where n: "exits (\<lambda>z. dadd z (layerHeight s)) (getBoundingBox s ! 5) (getBoundingBox s ! 2) n"
    using loop_exit [OF assms(2), of "getBoundingBox s ! 2" "getBoundingBox s ! 5"]
      getBoundingBox_bounded [OF assms(1)] by auto
  have "\<forall>k. \<exists>layer. slice_layer s (plane s k) = Some layer"
    using slice_layer_returns [OF assms(1,3)] by blast
  then have "\<exists>L. \<forall>k. slice_layer s (plane s k) = Some (L k)" by (rule choice)
  then obtain L where L: "\<forall>k. slice_layer s (plane s k) = Some (L k)" ..
  then have l: "\<forall>k<n. slice_layer s (plane s k) = Some (L k)" by simp
  have "slice mem s = (if storage (map L [0..<n]) \<le> mem then Some (Inr (map L [0..<n]))
                   else Some (Inl Bad_alloc))" for mem
    using slice_unroll [OF n l, of mem] slice_fails [OF n l, of mem] by simp
  then show ?thesis by blast
qed

text \<open>The layers that \<^verbatim>\<open>slice\<close> returns do not depend on the heap.\<close>

lemma slice_unique:
  assumes "slice mem s = Some (Inr layers)" "slice mem' s = Some (Inr layers')"
  shows "layers = layers'"
proof (rule nth_equalityI)
  note a = slice_Some [OF assms(1)] and b = slice_Some [OF assms(2)]
  show n: "length layers = length layers'"
    using exits_unique [OF a [THEN conjunct1] b [THEN conjunct1]] .
  fix k assume "k < length layers"
  then have "slice_layer s (plane s k) = Some (layers ! k)"
    "slice_layer s (plane s k) = Some (layers' ! k)" using a b n by simp_all
  then show "layers ! k = layers' ! k" by simp
qed

section \<open>The cube\<close>

lemma createTestCube_triangles: "triangles (createTestCube s) = cube_triangles"
  by (simp add: createTestCube_def cube_triangles_def corner_def rnd_eval)

lemma parseSTL_fields:
  "fst (parseSTL stlData s) = True"
  "triangles (snd (parseSTL stlData s)) = cube_triangles"
  "layerHeight (snd (parseSTL stlData s)) = layerHeight s"
  "infillDensity (snd (parseSTL stlData s)) = infillDensity s"
  by (simp_all add: parseSTL_def createTestCube_triangles) (simp_all add: createTestCube_def Let_def)

lemma cube_bbox:
  "triangles s = cube_triangles \<Longrightarrow>
     getBoundingBox s = [Fin (- 5), Fin (- 5), Fin (- 5), Fin 5, Fin 5, Fin 5]"
  by (simp add: getBoundingBox_def cube_triangles_def corner_def dmin_def dmax_def)

lemma cube_within: "mesh_within (2 ^ 22) cube_triangles"
  by (simp add: mesh_within_def cube_triangles_def corner_def)

lemma cube_num: "mesh_num cube_triangles"
  by (rule mesh_within_num [OF cube_within])

lemma cube_fields:
  "triangles cube = cube_triangles"
  "layerHeight cube = Fin (3602879701896397 / 18014398509481984)"
  "infillDensity cube = Fin 20"
  by (simp_all add: cube_def parseSTL_fields new_SimpleSlicer_def) (simp_all add: rnd_eval)

section \<open>What a layer holds\<close>

lemma slice_layer_Some:
  assumes "slice_layer s z = Some layer"
  shows "height layer = z"
    and "scan (triangles s) z [] = [] \<Longrightarrow> contours layer = [] \<and> infill layer = []"
    and "scan (triangles s) z [] \<noteq> [] \<Longrightarrow>
           contours layer = [scan (triangles s) z []] \<and>
           generateInfill s (scan (triangles s) z []) z = Some (infill layer)"
  using assms by (auto simp: slice_layer_def Let_def bind_eq_Some_conv split: if_splits)

lemma exits_dle: "exits f hi v n \<Longrightarrow> k < n \<Longrightarrow> dle ((f ^^ k) v) hi"
  by (simp add: exits_def)

lemma slice_nth:
  assumes "slice mem s = Some (Inr layers)" "k < length layers"
  shows "slice_layer s (plane s k) = Some (layers ! k)" "dle (plane s k) (getBoundingBox s ! 5)"
  using slice_Some [OF assms(1)] assms(2) exits_dle [of _ _ _ "length layers" k]
  by (auto simp: plane_def)

section \<open>The G-code stream\<close>

lemma e_values_append:
  "starts_S ys \<Longrightarrow> e_values (xs @ ys) = e_values xs @ e_values ys"
  by (induction xs rule: e_values.induct) (auto elim: starts_S.elims)

lemma layer_comments_append:
  "layer_comments (xs @ ys) = layer_comments xs + layer_comments ys"
  by (simp add: layer_comments_def)

lemma starts_S_append: "starts_S xs \<Longrightarrow> starts_S ys \<Longrightarrow> starts_S (xs @ ys)"
  by (cases xs rule: starts_S.cases) simp_all

lemma running_append:
  "running e (cs @ ds) = running e cs @ running (foldl dadd e cs) ds"
  by (induction cs arbitrary: e) simp_all

lemma emitsI:
  assumes "fst st' = fst st @ T" "starts_S T" "e_values T = running (snd st) cs"
    "layer_comments T = m" "snd st' = foldl dadd (snd st) cs"
  shows "emits st st' cs m"
  unfolding emits_def using assms by blast

lemma emits_refl: "emits st st [] 0"
  by (rule emitsI [of _ _ "[]"]) (simp_all add: layer_comments_def)

lemma emits_trans:
  assumes "emits st st' cs m" "emits st' st'' ds n"
  shows "emits st st'' (cs @ ds) (m + n)"
proof -
  from assms(1) obtain T where T: "fst st' = fst st @ T" "starts_S T"
    "e_values T = running (snd st) cs" "layer_comments T = m" "snd st' = foldl dadd (snd st) cs"
    unfolding emits_def by blast
  from assms(2) obtain U where U: "fst st'' = fst st' @ U" "starts_S U"
    "e_values U = running (snd st') ds" "layer_comments U = n" "snd st'' = foldl dadd (snd st') ds"
    unfolding emits_def by blast
  show ?thesis
  proof (rule emitsI [of _ _ "T @ U"])
    show "fst st'' = fst st @ T @ U" by (simp add: T U)
    show "starts_S (T @ U)" using T U by (intro starts_S_append)
    show "e_values (T @ U) = running (snd st) (cs @ ds)"
      by (simp add: e_values_append U T running_append)
    show "layer_comments (T @ U) = m + n" by (simp add: layer_comments_append T U)
    show "snd st'' = foldl dadd (snd st) (cs @ ds)" by (simp add: T U)
  qed
qed

lemma emits_segments:
  "emits (out, e) (emit_segments ps (out, e)) (replicate (length ps) (lit (1 / 10))) 0"
proof (induction ps arbitrary: out e)
  case Nil
  show ?case using emits_refl [of "(out, e)"] by simp
next
  case (Cons p ps)
  define e' where "e' = dadd e (lit (1 / 10))"
  define T where "T = [S ''G1 X'', D (vx p), S '' Y'', D (vy p), S '' E'', D e', S '' F1800\<newline>'']"
  have 1: "emits (out, e) (out @ T, e') [lit (1 / 10)] 0"
    by (rule emitsI [of _ _ T]) (simp_all add: T_def e'_def layer_comments_def)
  have 2: "emits (out @ T, e') (emit_segments ps (out @ T, e')) (replicate (length ps) (lit (1 / 10))) 0"
    by (rule Cons.IH)
  have "emit_segments (p # ps) (out, e) = emit_segments ps (out @ T, e')"
    by (simp add: T_def e'_def Let_def)
  then show ?case using emits_trans [OF 1 2] by simp
qed

lemma emits_contour: "emits st (emit_contour h st c) (contour_increments c) 0"
proof (cases c)
  case Nil
  then show ?thesis using emits_refl [of st] by (simp add: contour_increments_def)
next
  case (Cons p ps)
  obtain out e where st: "st = (out, e)" by (cases st)
  define T where "T = [S ''G0 Z'', D h, S '' F1200\<newline>'',
               S ''G0 X'', D (vx p), S '' Y'', D (vy p), S '' F3000\<newline>'']"
  have 1: "emits (out, e) (out @ T, e) [] 0"
    by (rule emitsI [of _ _ T]) (simp_all add: T_def layer_comments_def)
  have 2: "emits (out @ T, e) (emit_segments ps (out @ T, e)) (replicate (length ps) (lit (1 / 10))) 0"
    by (rule emits_segments)
  have "emit_contour h st c = emit_segments ps (out @ T, e)"
    by (simp add: st Cons T_def)
  then show ?thesis using emits_trans [OF 1 2] by (simp add: st Cons contour_increments_def)
qed

lemma emits_infill_line: "emits st (emit_infill_line h st l) (line_increments l) 0"
proof (cases "length l < 2")
  case True
  obtain out e where st: "st = (out, e)" by (cases st)
  show ?thesis using True emits_refl [of st] by (simp add: st line_increments_def)
next
  case False
  obtain out e where st: "st = (out, e)" by (cases st)
  define e' where "e' = dadd e (lit (5 / 100))"
  define T where "T = [S ''G0 Z'', D h, S '' F1200\<newline>'',
                      S ''G0 X'', D (vx (l ! 0)), S '' Y'', D (vy (l ! 0)),
                      S '' F3000\<newline>'',
                      S ''G1 X'', D (vx (l ! 1)), S '' Y'', D (vy (l ! 1)),
                      S '' E'', D e', S '' F1800\<newline>'']"
  have "emits (out, e) (out @ T, e') [lit (5 / 100)] 0"
    by (rule emitsI [of _ _ T]) (simp_all add: T_def e'_def layer_comments_def)
  moreover have "emit_infill_line h st l = (out @ T, e')"
    using False by (simp add: st T_def e'_def Let_def)
  ultimately show ?thesis using False by (simp add: st line_increments_def)
qed

lemma emits_foldl:
  assumes "\<And>st x. emits st (f st x) (g x) 0"
  shows "emits st (foldl f st xs) (concat (map g xs)) 0"
proof (induction xs arbitrary: st)
  case Nil
  show ?case using emits_refl [of st] by simp
next
  case (Cons x xs)
  show ?case using emits_trans [OF assms [of st x] Cons.IH [of "f st x"]] by simp
qed

lemma emits_layer: "emits st (emit_layer i layer st) (layer_increments layer) 1"
proof -
  obtain out e where st: "st = (out, e)" by (cases st)
  define T where "T = [S ''; Layer '', N i, S '' at Z='', D (height layer), S ''\<newline>'']"
  have 1: "emits (out, e) (out @ T, e) [] 1"
    by (rule emitsI [of _ _ T]) (simp_all add: T_def layer_comments_def)
  note 2 = emits_foldl [of "emit_contour (height layer)" contour_increments "(out @ T, e)"
      "contours layer", OF emits_contour]
  note 3 = emits_foldl [of "emit_infill_line (height layer)" line_increments
      "foldl (emit_contour (height layer)) (out @ T, e) (contours layer)"
      "infill layer", OF emits_infill_line]
  have "emit_layer i layer st =
      foldl (emit_infill_line (height layer))
        (foldl (emit_contour (height layer)) (out @ T, e) (contours layer)) (infill layer)"
    by (simp add: st T_def)
  then show ?thesis
    using emits_trans [OF emits_trans [OF 1 2] 3] by (simp add: st layer_increments_def)
qed

lemma emits_layers:
  "emits st (emit_layers i layers st) (extrusion_increments layers) (length layers)"
proof (induction layers arbitrary: i st)
  case Nil
  show ?case using emits_refl [of st] by (simp add: extrusion_increments_def)
next
  case (Cons layer layers)
  show ?case
    using emits_trans [OF emits_layer [of st i layer] Cons.IH [of "emit_layer i layer st" "Suc i"]]
    by (simp add: extrusion_increments_def)
qed

text \<open>The stream of a whole run.\<close>

lemma gcode_stream_Some:
  assumes "slice mem s = Some (Inr layers)" "layers \<noteq> []"
  shows "\<exists>toks. gcode_stream mem s = Some (Inr toks) \<and>
    e_values toks = running (Fin 0) (extrusion_increments layers) \<and>
    layer_comments toks = length layers"
proof -
  from emits_layers [of "(gcode_header s, lit 0)" 0 layers]
  obtain T where T: "gcode_body s layers = gcode_header s @ T" "starts_S T"
    "e_values T = running (Fin 0) (extrusion_increments layers)"
    "layer_comments T = length layers"
    unfolding emits_def gcode_body_def by (auto simp: lit_exact)
  define U where "U = [S ''\<newline>G0 Z'', D (dadd (height (last layers)) (lit 10)), S '' F1200\<newline>'',
                 S ''M84 ; Disable steppers\<newline>'']"
  have "gcode_stream mem s = Some (Inr (gcode_header s @ T @ U))"
    using assms by (simp add: gcode_stream_def T U_def)
  moreover have "e_values (gcode_header s @ T @ U) = running (Fin 0) (extrusion_increments layers)"
  proof -
    have "starts_S U" by (simp add: U_def)
    with T(2) have "starts_S (T @ U)" by (rule starts_S_append)
    then have "e_values (gcode_header s @ T @ U) = e_values (gcode_header s) @ e_values (T @ U)"
      by (rule e_values_append)
    also have "e_values (T @ U) = e_values T @ e_values U"
      by (rule e_values_append) (simp add: U_def)
    finally show ?thesis by (simp add: T gcode_header_def U_def)
  qed
  moreover have "layer_comments (gcode_header s @ T @ U) = length layers"
    by (simp add: layer_comments_append T) (simp add: layer_comments_def gcode_header_def U_def)
  ultimately show ?thesis by blast
qed

lemma gcode_stream_Inr:
  assumes "gcode_stream mem s = Some (Inr toks)"
  shows "\<exists>layers. slice mem s = Some (Inr layers) \<and> layers \<noteq> []"
proof (cases "slice mem s")
  case None
  with assms show ?thesis by (simp add: gcode_stream_def)
next
  case (Some r)
  show ?thesis
  proof (cases r)
    case (Inl e)
    with assms Some show ?thesis by (simp add: gcode_stream_def)
  next
    case (Inr layers)
    with assms Some show ?thesis by (cases "layers = []") (simp_all add: gcode_stream_def)
  qed
qed

lemma gcode_stream_unique:
  assumes "gcode_stream mem s = Some (Inr toks)" "gcode_stream mem' s = Some (Inr toks')"
  shows "toks = toks'"
proof -
  from gcode_stream_Inr [OF assms(1)] obtain layers
    where l: "slice mem s = Some (Inr layers)" "layers \<noteq> []" by blast
  from gcode_stream_Inr [OF assms(2)] obtain layers'
    where l': "slice mem' s = Some (Inr layers')" "layers' \<noteq> []" by blast
  have "layers = layers'" using slice_unique [OF l(1) l'(1)] .
  then show ?thesis using assms l l' by (simp add: gcode_stream_def)
qed

section \<open>The extrusion accumulator\<close>

lemma lit_increments:
  "lit (1 / 10) = Fin (3602879701896397 / 36028797018963968)"
  "lit (5 / 100) = Fin (3602879701896397 / 72057594037927936)"
  by (simp_all add: rnd_eval)

text \<open>
  One addition of an increment between \<open>1 / 32\<close> and \<open>1 / 8\<close>: the multiples of \<open>1 / 32\<close> are
  doubles up to \<open>2 ^ 48\<close>, one of them lies between the accumulator and the exact sum, so
  the rounded sum is above the accumulator.
\<close>

lemma acc_step:
  assumes r: "0 \<le> r" "r \<le> real j / 8" and j: "j < 2 ^ 50" and c: "1 / 32 \<le> c" "c \<le> 1 / 8"
  shows "\<exists>r'. rnd (r + c) = Fin r' \<and> r < r' \<and> r' \<le> real (Suc j) / 8"
proof -
  define g where "g = \<lfloor>r * 2 ^ 5\<rfloor>"
  define d :: real where "d = of_int (g + 1) / 2 ^ 5"
  define u :: real where "u = of_int (int (Suc j)) / 2 ^ 3"
  have "real j < 2 ^ 50" using j by (metis of_nat_less_iff of_nat_numeral of_nat_power)
  then have rb: "r * 2 ^ 5 < 2 ^ 52" using r by simp
  have "0 \<le> g" using r by (simp add: g_def)
  moreover have "g < 2 ^ 52" unfolding g_def using rb by (subst floor_less_iff) simp
  ultimately have gb: "\<bar>g + 1\<bar> < 2 ^ 53" by simp
  have rd: "rnd d = Fin d" unfolding d_def by (rule rnd_grid [OF _ gb]) simp
  have "int (Suc j) < 2 ^ 53" using j by simp
  then have "\<bar>int (Suc j)\<bar> < 2 ^ 53" by simp
  then have ru: "rnd u = Fin u" unfolding u_def by (intro rnd_grid) simp_all
  have "r * 2 ^ 5 < of_int (g + 1)" "of_int (g + 1) \<le> r * 2 ^ 5 + 1"
    unfolding g_def by linarith+
  then have d: "r < d" "d \<le> r + 1 / 32" by (simp_all add: d_def field_simps)
  have u: "u = real (Suc j) / 8" by (simp add: u_def)
  have "d \<le> r + c" using d c by linarith
  then have 1: "dle (Fin d) (rnd (r + c))" using rnd_mono [of d "r + c"] rd by simp
  have "r + c \<le> u" using r c by (simp add: u field_simps)
  then have 2: "dle (rnd (r + c)) (Fin u)" using rnd_mono [of "r + c" u] ru by simp
  from 1 2 obtain r' where r': "rnd (r + c) = Fin r'" "d \<le> r'" "r' \<le> u"
    by (cases "rnd (r + c)") simp_all
  then show ?thesis using d(1) u by auto
qed

lemma dlt_trans: "dlt a b \<Longrightarrow> dlt b c \<Longrightarrow> dlt a c"
  by (cases a; cases b; cases c) simp_all

lemma running_sorted:
  assumes "\<forall>c\<in>set cs. c = lit (1 / 10) \<or> c = lit (5 / 100)"
    and "0 \<le> r" "r \<le> real j / 8" "j + length cs \<le> 2 ^ 50"
  shows "sorted_wrt dlt (running (Fin r) cs) \<and> (\<forall>x\<in>set (running (Fin r) cs). dlt (Fin r) x)"
  using assms
proof (induction cs arbitrary: r j)
  case Nil
  then show ?case by simp
next
  case (Cons c cs)
  have "c = lit (1 / 10) \<or> c = lit (5 / 100)" using Cons.prems(1) by (simp del: lit_def)
  then consider "c = Fin (3602879701896397 / 36028797018963968)"
    | "c = Fin (3602879701896397 / 72057594037927936)"
    unfolding lit_increments by blast
  then obtain cr where cr: "c = Fin cr" "1 / 32 \<le> cr" "cr \<le> 1 / 8"
  proof cases
    case 1
    show ?thesis by (rule that [of "3602879701896397 / 36028797018963968"]) (simp_all add: 1)
  next
    case 2
    show ?thesis by (rule that [of "3602879701896397 / 72057594037927936"]) (simp_all add: 2)
  qed
  have j: "j < 2 ^ 50" using Cons.prems(4) by simp
  from acc_step [OF Cons.prems(2,3) j cr(2,3)] obtain r' where r':
    "rnd (r + cr) = Fin r'" "r < r'" "r' \<le> real (Suc j) / 8" by blast
  have "sorted_wrt dlt (running (Fin r') cs) \<and> (\<forall>x\<in>set (running (Fin r') cs). dlt (Fin r') x)"
    using Cons.prems(1,2,4) r'(2,3) by (intro Cons.IH [of r' "Suc j"]) simp_all
  moreover have lt: "dlt (Fin r) (Fin r')" using r'(2) by simp
  moreover have "dlt (Fin r) x" if "dlt (Fin r') x" for x
    using lt that by (rule dlt_trans)
  ultimately show ?case
    by (simp add: cr r'(1))
qed

lemma extrusion_increments_set:
  "\<forall>c\<in>set (extrusion_increments layers). c = lit (1 / 10) \<or> c = lit (5 / 100)"
  by (auto simp: extrusion_increments_def layer_increments_def contour_increments_def
      line_increments_def split: if_splits)

lemma length_running: "length (running e cs) = length cs"
  by (induction cs arbitrary: e) simp_all

text \<open>Up to \<open>2 ^ 50\<close> additions the totals are finite, positive and strictly increasing.\<close>

lemma running_finite:
  assumes "\<forall>c\<in>set cs. c = lit (1 / 10) \<or> c = lit (5 / 100)"
    and "0 \<le> r" "r \<le> real j / 8" "j + length cs \<le> 2 ^ 50"
  shows "\<exists>es. running (Fin r) cs = map Fin es \<and> sorted_wrt (<) es \<and> (\<forall>e\<in>set es. r < e)"
  using assms
proof (induction cs arbitrary: r j)
  case Nil
  then show ?case by simp
next
  case (Cons c cs)
  have "c = lit (1 / 10) \<or> c = lit (5 / 100)" using Cons.prems(1) by (simp del: lit_def)
  then consider "c = Fin (3602879701896397 / 36028797018963968)"
    | "c = Fin (3602879701896397 / 72057594037927936)"
    unfolding lit_increments by blast
  then obtain cr where cr: "c = Fin cr" "1 / 32 \<le> cr" "cr \<le> 1 / 8"
  proof cases
    case 1
    show ?thesis by (rule that [of "3602879701896397 / 36028797018963968"]) (simp_all add: 1)
  next
    case 2
    show ?thesis by (rule that [of "3602879701896397 / 72057594037927936"]) (simp_all add: 2)
  qed
  have j: "j < 2 ^ 50" using Cons.prems(4) by simp
  from acc_step [OF Cons.prems(2,3) j cr(2,3)] obtain r' where r':
    "rnd (r + cr) = Fin r'" "r < r'" "r' \<le> real (Suc j) / 8" by blast
  have "\<exists>es. running (Fin r') cs = map Fin es \<and> sorted_wrt (<) es \<and> (\<forall>e\<in>set es. r' < e)"
    using Cons.prems(1,2,4) r'(2,3) by (intro Cons.IH [of r' "Suc j"]) simp_all
  then obtain es where es: "running (Fin r') cs = map Fin es" "sorted_wrt (<) es"
    "\<forall>e\<in>set es. r' < e" by blast
  have "running (Fin r) (c # cs) = map Fin (r' # es)" by (simp add: cr(1) r'(1) es(1))
  moreover have "sorted_wrt (<) (r' # es)" using es(2,3) by simp
  moreover have "\<forall>e\<in>set (r' # es). r < e" using es(3) r'(2) by auto
  ultimately show ?case by blast
qed

text \<open>Every extrusion move has its points in the layers: there are at most as many moves
  as the layers hold doubles.\<close>

lemma length_contour_increments:
  "length (concat (map contour_increments cs)) \<le> length (concat cs)"
  by (induction cs) (simp_all add: contour_increments_def)

lemma length_line_increments:
  "length (concat (map line_increments ls)) \<le> length (concat ls)"
  by (induction ls) (simp_all add: line_increments_def)

lemma length_layer_increments: "length (layer_increments layer) \<le> doubles_of layer"
  using length_contour_increments [of "contours layer"] length_line_increments [of "infill layer"]
  by (simp add: layer_increments_def doubles_of_def)

lemma length_extrusion_increments: "length (extrusion_increments layers) \<le> storage layers"
proof (induction layers)
  case Nil
  show ?case by (simp add: extrusion_increments_def)
next
  case (Cons l ls)
  then show ?case using length_layer_increments [of l]
    by (simp add: extrusion_increments_def storage_def)
qed

section \<open>The cube sliced at layer height 4\<close>

lemma cube4_fields:
  "triangles cube4 = cube_triangles" "layerHeight cube4 = Fin 4" "infillDensity cube4 = Fin 20"
  by (simp_all add: cube4_def setLayerHeight_def cube_fields)

lemmas cube4_bbox = cube_bbox [OF cube4_fields(1)]

lemmas slice_layer_eval =
  slice_layer_def generateInfill_def infill_loop.simps cube4_bbox cube4_fields
  cube_triangles_def corner_def crosses_def calculateIntersection_def dsub_def rnd_eval

lemma cube4_slice_layer0: "slice_layer cube4 (Fin (- 5)) = Some cube4_layer0"
  by (simp add: slice_layer_eval cube4_layer0_def)

lemma cube4_slice_layer1: "slice_layer cube4 (Fin (- 1)) = Some cube4_layer1"
  by (simp add: slice_layer_eval cube4_layer1_def)

lemma cube4_slice_layer2: "slice_layer cube4 (Fin 3) = Some cube4_layer2"
  by (simp add: slice_layer_eval cube4_layer2_def)

lemma cube4_planes:
  "plane cube4 0 = Fin (- 5)" "plane cube4 (Suc 0) = Fin (- 1)"
  "plane cube4 (Suc (Suc 0)) = Fin 3" "plane cube4 (Suc (Suc (Suc 0))) = Fin 7"
  by (simp_all add: plane_def cube4_bbox cube4_fields rnd_eval)

lemma cube4_exits:
  "exits (\<lambda>z. dadd z (layerHeight cube4)) (getBoundingBox cube4 ! 5) (getBoundingBox cube4 ! 2) 3"
  by (simp add: numeral_3_eq_3 exits_Suc exits_0 cube4_bbox cube4_fields rnd_eval)

lemma cube4_storage: "storage cube4_layers = 117"
  by (simp add: storage_def doubles_of_def cube4_layers_def cube4_layer0_def cube4_layer1_def
      cube4_layer2_def)

text \<open>The three layers hold 117 doubles: \<^verbatim>\<open>slice\<close> returns them when the heap has room for
  117 doubles, and ends in the allocation failure when it has not.\<close>

lemma cube4_slice:
  "slice mem cube4 = (if 117 \<le> mem then Some (Inr cube4_layers) else Some (Inl Bad_alloc))"
proof -
  define L where "L = (\<lambda>k::nat. cube4_layers ! k)"
  have l: "\<forall>k<3. slice_layer cube4 (plane cube4 k) = Some (L k)"
    by (simp add: numeral_3_eq_3 All_less_Suc L_def cube4_layers_def cube4_planes
        cube4_slice_layer0 cube4_slice_layer1 cube4_slice_layer2)
  have m: "map L [0..<3] = cube4_layers"
    by (simp add: L_def cube4_layers_def numeral_3_eq_3 upt_rec)
  show ?thesis
    using slice_unroll [OF cube4_exits l, of mem] slice_fails [OF cube4_exits l, of mem]
    by (simp add: m cube4_storage)
qed

section \<open>A loop that does not end\<close>

lemma step_below:
  assumes "r \<le> 0" "rnd b = Fin b" "dle v (Fin b)"
  shows "dle (dadd v (Fin r)) (Fin b)"
proof (cases v)
  case (Fin a)
  with assms have "a + r \<le> b" by simp
  then have "dle (rnd (a + r)) (rnd b)" by (rule rnd_mono)
  then show ?thesis by (simp add: Fin assms(2))
next
  case PInf with assms show ?thesis by simp
next
  case NInf then show ?thesis by simp
next
  case NaN with assms show ?thesis by simp
qed

lemma never_exits:
  assumes "r \<le> 0" "rnd b = Fin b" "dle v (Fin b)"
  shows "\<not> exits (\<lambda>x. dadd x (Fin r)) (Fin b) v n"
proof -
  have "dle (((\<lambda>x. dadd x (Fin r)) ^^ k) v) (Fin b)" for k
    by (induction k) (simp_all add: assms step_below)
  then show ?thesis by (simp add: exits_def)
qed

lemma scan_Nil_iff: "scan ts z [] = [] \<longleftrightarrow> \<not> (\<exists>t\<in>set ts. crosses t z)"
  by (simp add: scan_eq filter_empty_conv)

lemma slice_layer_None:
  assumes "generateInfill s (scan (triangles s) z []) z = None" "\<exists>t\<in>set (triangles s). crosses t z"
  shows "slice_layer s z = None"
  using assms by (simp add: slice_layer_def scan_Nil_iff)

lemma slice_None:
  assumes "dle (getBoundingBox s ! 2) (getBoundingBox s ! 5)"
    "slice_layer s (getBoundingBox s ! 2) = None"
  shows "slice mem s = None"
  unfolding slice_def Let_def by (subst slice_loop.simps) (simp add: assms)

section \<open>The bounds of a mesh without NaN\<close>

lemma bbox_z_ordered:
  assumes "mesh_num (triangles s)"
  shows "dle (getBoundingBox s ! 2) (getBoundingBox s ! 5)"
proof (cases "triangles s")
  case Nil
  then show ?thesis by (simp add: getBoundingBox_Nil)
next
  case (Cons t0 ts)
  have "\<forall>t\<in>set (t0 # ts). tri_num vz t"
    using mesh_num_tri [OF assms] unfolding Cons by blast
  from axis_props(3) [OF this] show ?thesis by (simp add: getBoundingBox_Cons [OF Cons])
qed

lemma slice_nonempty:
  assumes "mesh_num (triangles s)" "slice mem s = Some (Inr layers)"
  shows "layers \<noteq> []"
proof
  assume "layers = []"
  with slice_Some [OF assms(2)] have "\<not> dle (getBoundingBox s ! 2) (getBoundingBox s ! 5)"
    by (simp add: exits_0)
  with bbox_z_ordered [OF assms(1)] show False by simp
qed

section \<open>Exact plane heights\<close>

lemma exact_planes:
  assumes "getBoundingBox s ! 2 = Fin a" "layerHeight s = Fin h"
    and "\<forall>i\<le>n. rnd (a + real i * h) = Fin (a + real i * h)"
  shows "i \<le> n \<Longrightarrow> plane s i = Fin (a + real i * h)"
proof (induction i)
  case 0
  then show ?case by (simp add: plane_def assms(1))
next
  case (Suc i)
  then have "plane s i = Fin (a + real i * h)" by simp
  moreover have "plane s (Suc i) = dadd (plane s i) (Fin h)"
    by (simp add: plane_def assms(2))
  ultimately have "plane s (Suc i) = rnd (a + real i * h + h)" by simp
  moreover have "a + real i * h + h = a + real (Suc i) * h" by (simp add: algebra_simps)
  moreover have "rnd (a + real (Suc i) * h) = Fin (a + real (Suc i) * h)"
    using assms(3) Suc.prems by blast
  ultimately show ?case by (simp only:)
qed

lemma plane_exits:
  "exits (\<lambda>z. dadd z (layerHeight s)) (getBoundingBox s ! 5) (getBoundingBox s ! 2) n \<longleftrightarrow>
     (\<forall>i<n. dle (plane s i) (getBoundingBox s ! 5)) \<and> \<not> dle (plane s n) (getBoundingBox s ! 5)"
  by (simp add: exits_def plane_def)

lemma exact_count:
  assumes a: "getBoundingBox s ! 2 = Fin a" and b: "getBoundingBox s ! 5 = Fin b"
    and h: "layerHeight s = Fin h" "0 < h" and ab: "a \<le> b"
    and ex: "\<forall>i\<le>spec_layer_count a b h. rnd (spec_layer_height a h i) = Fin (spec_layer_height a h i)"
  shows "exits (\<lambda>z. dadd z (layerHeight s)) (getBoundingBox s ! 5) (getBoundingBox s ! 2)
           (spec_layer_count a b h)"
    and "i \<le> spec_layer_count a b h \<Longrightarrow> plane s i = Fin (spec_layer_height a h i)"
proof -
  define n where "n = spec_layer_count a b h"
  define q where "q = \<lfloor>(b - a) / h\<rfloor>"
  have q0: "0 \<le> q" using ab h(2) by (simp add: q_def)
  have n: "int n = q + 1" using q0 by (simp add: n_def spec_layer_count_def q_def)
  have ex': "\<forall>i\<le>n. rnd (a + real i * h) = Fin (a + real i * h)"
    using ex by (simp add: n_def spec_layer_height_def)
  note p = exact_planes [OF a h(1) ex']
  show "i \<le> spec_layer_count a b h \<Longrightarrow> plane s i = Fin (spec_layer_height a h i)"
    using p [of i] by (simp add: n_def spec_layer_height_def)
  have lo: "dle (plane s i) (Fin b)" if "i < n" for i
  proof -
    have "int i \<le> q" using that n by simp
    then have "real i \<le> (b - a) / h" unfolding q_def by (simp add: le_floor_iff)
    then have "real i * h \<le> b - a" using h(2) by (simp add: pos_le_divide_eq)
    then show ?thesis using p [of i] that by simp
  qed
  have "(b - a) / h < real_of_int (q + 1)" unfolding q_def by linarith
  also have "\<dots> = real n" using n by (metis of_int_of_nat_eq)
  finally have "b - a < real n * h" using h(2) by (simp add: pos_divide_less_eq)
  then have hi: "\<not> dle (plane s n) (Fin b)" using p [of n] by simp
  show "exits (\<lambda>z. dadd z (layerHeight s)) (getBoundingBox s ! 5) (getBoundingBox s ! 2)
           (spec_layer_count a b h)"
    unfolding plane_exits unfolding b n_def [symmetric] using lo hi by blast
qed

lemma step_ok_pos: "step_ok (Fin h) \<Longrightarrow> 0 < h"
proof -
  assume "step_ok (Fin h)"
  then have "1 / 2 ^ 30 \<le> h" by simp
  moreover have "(0::real) < 1 / 2 ^ 30" by simp
  ultimately show ?thesis by linarith
qed

section \<open>The doubles that the layers hold\<close>

lemma length_scan: "length (scan ts z []) \<le> length ts"
  by (simp add: scan_eq)

lemma length_concat_pairs: "length (concat (map (\<lambda>k. [f k, g k]) ks)) = 2 * length ks"
  by (induction ks) simp_all

text \<open>A layer holds its height, at most one point for each triangle and two points for
  each infill line.\<close>

lemma doubles_of_bound:
  assumes "slice_layer s z = Some layer"
    and "exits (\<lambda>x. dadd x (infill_step s)) (getBoundingBox s ! 3) (getBoundingBox s ! 0) m"
  shows "doubles_of layer \<le> 1 + 3 * length (triangles s) + 6 * m"
proof (cases "scan (triangles s) z [] = []")
  case True
  from slice_layer_Some(2) [OF assms(1) True] show ?thesis by (simp add: doubles_of_def)
next
  case False
  note f = slice_layer_Some(3) [OF assms(1) False]
  from generateInfill_Some [OF f [THEN conjunct2]] obtain n where n:
    "exits (\<lambda>x. dadd x (infill_step s)) (getBoundingBox s ! 3) (getBoundingBox s ! 0) n"
    "infill layer = map (\<lambda>k. infill_line s z (infill_x s k)) [0..<n]" by blast
  have nm: "n = m" using exits_unique [OF n(1) assms(2)] .
  have "length (concat (infill layer)) = 2 * m"
    unfolding n(2) infill_line_def nm by (simp add: length_concat_pairs)
  moreover have "length (concat (contours layer)) \<le> length (triangles s)"
    using f length_scan [of "triangles s" z] by simp
  ultimately show ?thesis by (simp add: doubles_of_def)
qed

lemma storage_bound:
  "\<forall>k<n. doubles_of (L k) \<le> B \<Longrightarrow> storage (map L [0..<n]) \<le> n * B"
proof (induction n)
  case 0
  show ?case by (simp add: storage_def)
next
  case (Suc n)
  then have "storage (map L [0..<n]) \<le> n * B" "doubles_of (L n) \<le> B" by simp_all
  then show ?case by (simp add: storage_def)
qed

text \<open>
  When the loop over the planes leaves after \<open>n\<close> passes and the loop over X after \<open>m\<close>,
  \<^verbatim>\<open>slice\<close> returns \<open>n\<close> layers, provided the heap has room for them.
\<close>

lemma slice_returns_count:
  assumes e: "exits (\<lambda>z. dadd z (layerHeight s)) (getBoundingBox s ! 5) (getBoundingBox s ! 2) n"
    and i: "exits (\<lambda>x. dadd x (infill_step s)) (getBoundingBox s ! 3) (getBoundingBox s ! 0) m"
    and fits: "n * (1 + 3 * length (triangles s) + 6 * m) \<le> mem"
  shows "\<exists>layers. slice mem s = Some (Inr layers) \<and> length layers = n"
proof -
  define L where "L = (\<lambda>k. the (slice_layer s (plane s k)))"
  have "\<exists>layer. slice_layer s z = Some layer" for z
    using generateInfill_unroll [OF i] by (simp add: slice_layer_def Let_def)
  then have l: "\<forall>k<n. slice_layer s (plane s k) = Some (L k)"
    unfolding L_def by (metis option.sel)
  then have "\<forall>k<n. doubles_of (L k) \<le> 1 + 3 * length (triangles s) + 6 * m"
    using doubles_of_bound [OF _ i] by blast
  from storage_bound [OF this] fits have "storage (map L [0..<n]) \<le> mem" by simp
  from slice_unroll [OF e l this] show ?thesis by simp
qed

section \<open>The cube with layer height 2 / 9\<close>

lemma exits_numeral:
  "exits f hi v (numeral k) \<longleftrightarrow> dle v hi \<and> exits f hi (f v) (pred_numeral k)"
  by (simp add: numeral_eq_Suc exits_Suc)

lemma cube29_fields:
  "triangles cube29 = cube_triangles"
  "layerHeight cube29 = Fin (2001599834386887 / 9007199254740992)"
  "infillDensity cube29 = Fin 20"
  by (simp_all add: cube29_def setLayerHeight_def cube_fields) (simp add: rnd_eval)

lemmas cube29_bbox = cube_bbox [OF cube29_fields(1)]

lemma cube29_exits:
  "exits (\<lambda>z. dadd z (layerHeight cube29)) (getBoundingBox cube29 ! 5)
     (getBoundingBox cube29 ! 2) 45"
  by (simp add: exits_numeral exits_Suc exits_0 cube29_bbox cube29_fields rnd_eval)

lemma cube29_infill_exits:
  "exits (\<lambda>x. dadd x (infill_step cube29)) (getBoundingBox cube29 ! 3)
     (getBoundingBox cube29 ! 0) 2"
  by (simp add: numeral_2_eq_2 exits_Suc exits_0 infill_step_def cube29_bbox cube29_fields
      rnd_eval)

lemma cube29_slice:
  assumes "2205 \<le> mem"
  shows "\<exists>layers. slice mem cube29 = Some (Inr layers) \<and> length layers = 45"
  by (rule slice_returns_count [OF cube29_exits cube29_infill_exits])
     (use assms in \<open>simp add: cube29_fields cube_triangles_def\<close>)

lemma cube29_plane5:
  "plane cube29 5 = Fin (- (4378499637721315 / 1125899906842624))"
  by (simp add: plane_def eval_nat_numeral cube29_bbox cube29_fields rnd_eval)

section \<open>The empty mesh\<close>

lemma new_fields:
  "triangles new_SimpleSlicer = []"
  "layerHeight new_SimpleSlicer = Fin (3602879701896397 / 18014398509481984)"
  "infillDensity new_SimpleSlicer = Fin 20"
  by (simp_all add: new_SimpleSlicer_def) (simp_all add: rnd_eval)

lemma new_slice:
  "0 < mem \<Longrightarrow>
   slice mem new_SimpleSlicer = Some (Inr [\<lparr>height = Fin 0, contours = [], infill = []\<rparr>])"
  by (simp add: slice_def getBoundingBox_Nil new_fields slice_loop.simps slice_layer_def
      storage_def doubles_of_def rnd_eval)

section \<open>The cube with a negative infill density\<close>

lemma cube_neg_fields:
  "triangles cube_neg = cube_triangles" "infillDensity cube_neg = Fin (- 1)"
  "layerHeight cube_neg = Fin (3602879701896397 / 18014398509481984)"
  by (simp_all add: cube_neg_def setInfillDensity_def cube_fields)

lemma cube_neg_slice: "slice mem cube_neg = None"
proof -
  note f = cube_neg_fields
  note bb = cube_bbox [OF f(1)]
  have st: "infill_step cube_neg = Fin (- 200)"
    by (simp add: infill_step_def f rnd_eval)
  have r5: "rnd 5 = Fin 5" by (simp add: rnd_eval)
  have "generateInfill cube_neg c z = None" for c z
  proof (cases "generateInfill cube_neg c z")
    case None then show ?thesis .
  next
    case (Some lines)
    from generateInfill_Some [OF this] obtain n where
      "exits (\<lambda>x. dadd x (infill_step cube_neg)) (Fin 5) (Fin (- 5)) n"
      by (auto simp: bb)
    moreover have "\<not> exits (\<lambda>x. dadd x (Fin (- 200))) (Fin 5) (Fin (- 5)) n"
      by (rule never_exits [OF _ r5]) simp_all
    ultimately show ?thesis by (simp add: st)
  qed
  moreover have "\<exists>t\<in>set (triangles cube_neg). crosses t (Fin (- 5))"
    by (simp add: f cube_triangles_def corner_def crosses_def)
  ultimately have "slice_layer cube_neg (Fin (- 5)) = None" by (intro slice_layer_None) simp_all
  then show "slice mem cube_neg = None" by (intro slice_None) (simp_all add: bb)
qed

section \<open>The cube with the default configuration\<close>

text \<open>
  With the default layer height 0.2 the fiftieth addition gives a height just above 5:
  \<^verbatim>\<open>slice\<close> returns 50 layers, the last one below the top face of the cube, although the
  quotient \<open>(maxZ - minZ) / layerHeight\<close> is exactly 50 in double arithmetic.
\<close>

lemma cube_default_exits:
  "exits (\<lambda>z. dadd z (layerHeight cube)) (getBoundingBox cube ! 5) (getBoundingBox cube ! 2) 50"
  by (simp add: exits_numeral exits_Suc exits_0 cube_bbox [OF cube_fields(1)] cube_fields rnd_eval)

lemma cube_default_infill_exits:
  "exits (\<lambda>x. dadd x (infill_step cube)) (getBoundingBox cube ! 3) (getBoundingBox cube ! 0) 2"
  by (simp add: numeral_2_eq_2 exits_Suc exits_0 infill_step_def cube_bbox [OF cube_fields(1)]
      cube_fields rnd_eval)

lemma cube_default_layers:
  "(\<exists>layers. slice 2450 cube = Some (Inr layers) \<and> length layers = 50) \<and>
   plane cube 49 = Fin (675539944105575 / 140737488355328) \<and>
   plane cube 50 = Fin (5629499534213125 / 1125899906842624) \<and>
   ddiv (dsub (Fin 5) (Fin (- 5))) (layerHeight cube) = Fin 50"
proof -
  have l: "\<exists>layers. slice 2450 cube = Some (Inr layers) \<and> length layers = 50"
    by (rule slice_returns_count [OF cube_default_exits cube_default_infill_exits])
       (simp add: cube_fields cube_triangles_def)
  have p: "plane cube 49 = Fin (675539944105575 / 140737488355328)"
    "plane cube 50 = Fin (5629499534213125 / 1125899906842624)"
    by (simp_all add: plane_def numeral_eq_Suc cube_bbox [OF cube_fields(1)] cube_fields rnd_eval)
  have q: "ddiv (dsub (Fin 5) (Fin (- 5))) (layerHeight cube) = Fin 50"
    by (simp add: cube_fields dsub_def rnd_eval)
  show ?thesis using l p q by simp
qed

section \<open>The cube with layer height \<open>2 powi - 30\<close>\<close>

text \<open>
  Every plane height \<open>- 5 + i / 2 ^ 30\<close> is a double, so the loop makes
  \<open>10 * 2 ^ 30 + 1\<close> passes and as many layers: more than the \<open>2 ^ 29\<close> doubles that a heap
  of \<open>2 ^ 32\<close> bytes can hold.  \<^verbatim>\<open>slice\<close> ends in the allocation failure.
\<close>

lemma cube30_fields:
  "triangles cube30 = cube_triangles" "layerHeight cube30 = Fin (1 / 2 ^ 30)"
  "infillDensity cube30 = Fin 20"
  by (simp_all add: cube30_def setLayerHeight_def cube_fields)

lemma cube30_count: "spec_layer_count (- 5) 5 (1 / 2 ^ 30) = 10737418241"
  by (simp add: spec_layer_count_def)

lemma cube30_exits:
  "exits (\<lambda>z. dadd z (layerHeight cube30)) (getBoundingBox cube30 ! 5)
     (getBoundingBox cube30 ! 2) 10737418241"
proof -
  note bb = cube_bbox [OF cube30_fields(1)]
  have ex: "\<forall>i\<le>spec_layer_count (- 5) 5 (1 / 2 ^ 30).
      rnd (spec_layer_height (- 5) (1 / 2 ^ 30) i) = Fin (spec_layer_height (- 5) (1 / 2 ^ 30) i)"
  proof (intro allI impI)
    fix i assume "i \<le> spec_layer_count (- 5) 5 (1 / 2 ^ 30)"
    then have i: "i \<le> 10737418241" by (simp only: cube30_count)
    define m where "m = int i - 5 * 2 ^ 30"
    have "\<bar>m\<bar> < 2 ^ 53" using i by (simp add: m_def)
    from rnd_grid [OF _ this, of 30]
    have r: "rnd (of_int m / 2 ^ 30) = Fin (of_int m / 2 ^ 30)" by simp
    have e: "spec_layer_height (- 5) (1 / 2 ^ 30) i = of_int m / 2 ^ 30"
      by (simp add: spec_layer_height_def m_def field_simps)
    show "rnd (spec_layer_height (- 5) (1 / 2 ^ 30) i) =
        Fin (spec_layer_height (- 5) (1 / 2 ^ 30) i)" unfolding e by (rule r)
  qed
  have "exits (\<lambda>z. dadd z (layerHeight cube30)) (getBoundingBox cube30 ! 5)
     (getBoundingBox cube30 ! 2) (spec_layer_count (- 5) 5 (1 / 2 ^ 30))"
    by (rule exact_count(1) [OF _ _ cube30_fields(2) _ _ ex]) (simp_all add: bb)
  then show ?thesis by (simp only: cube30_count)
qed

lemma cube30_slice:
  assumes "mem \<le> 2 ^ 29"
  shows "slice mem cube30 = Some (Inl Bad_alloc)"
proof -
  have a: "mesh_within (2 ^ 22) (triangles cube30)" "step_ok (layerHeight cube30)"
    "density_ok (infillDensity cube30)"
    unfolding cube30_fields by (rule cube_within) simp_all
  from slice_returns [OF a] obtain layers where l:
    "\<forall>mem. slice mem cube30 =
       (if storage layers \<le> mem then Some (Inr layers) else Some (Inl Bad_alloc))" by blast
  then have "slice (storage layers) cube30 = Some (Inr layers)" by simp
  from slice_Some [OF this] have "length layers = 10737418241"
    using exits_unique [OF _ cube30_exits] by blast
  then have "10737418241 \<le> storage layers" using length_le_storage [of layers] by simp
  moreover have "mem < 10737418241" using assms by simp
  ultimately show ?thesis using l by simp
qed

section \<open>The number format\<close>

lemma digits_numeral:
  "digits (numeral k) n = digits (pred_numeral k) (n div 10) @ [''0123456789'' ! (n mod 10)]"
proof -
  have "digits (Suc (pred_numeral k)) n =
      digits (pred_numeral k) (n div 10) @ [''0123456789'' ! (n mod 10)]"
    by (rule digits.simps)
  then show ?thesis by (simp only: numeral_eq_Suc [symmetric])
qed

lemmas show_eval = show_pos_def sig_digits_def ilog10.simps rne_def fraction_def
  show_exponent_def show_nat.simps Let_def digits_numeral

lemma rne_near: "\<bar>real_of_int (rne y) - y\<bar> \<le> 1 / 2"
proof -
  define f where "f = \<lfloor>y\<rfloor>"
  have f: "of_int f \<le> y" "y < of_int f + 1" unfolding f_def by linarith+
  consider "y - of_int f < 1 / 2" | "1 / 2 < y - of_int f" | "y - of_int f = 1 / 2"
    by linarith
  then show ?thesis
  proof cases
    case 1
    then have "rne y = f" by (simp add: rne_def f_def)
    then show ?thesis using f 1 by simp
  next
    case 2
    then have "rne y = f + 1" by (simp add: rne_def f_def)
    then show ?thesis using f 2 by simp
  next
    case 3
    then have "rne y = f \<or> rne y = f + 1" by (simp add: rne_def f_def Let_def)
    then show ?thesis using f 3 by auto
  qed
qed

lemma ilog10_step: "10 \<le> a \<Longrightarrow> ilog10 a = ilog10 (a / 10) + 1"
  by (subst ilog10.simps) simp

lemma ilog10_unit: "1 \<le> a \<Longrightarrow> a < 10 \<Longrightarrow> ilog10 a = 0"
  by (subst ilog10.simps) simp

lemma ilog10_4:
  assumes "10 ^ 4 \<le> a" "a < 10 ^ 5"
  shows "ilog10 a = 4"
proof -
  have "ilog10 a = ilog10 (a / 10) + 1" using assms by (intro ilog10_step) simp
  also have "ilog10 (a / 10) = ilog10 (a / 10 / 10) + 1" using assms by (intro ilog10_step) simp
  also have "ilog10 (a / 10 / 10) = ilog10 (a / 10 / 10 / 10) + 1"
    using assms by (intro ilog10_step) simp
  also have "ilog10 (a / 10 / 10 / 10) = ilog10 (a / 10 / 10 / 10 / 10) + 1"
    using assms by (intro ilog10_step) simp
  also have "ilog10 (a / 10 / 10 / 10 / 10) = 0" using assms by (intro ilog10_unit) simp_all
  finally show ?thesis by simp
qed

text \<open>
  Between \<open>10 ^ 4\<close> and \<open>10 ^ 5\<close> the six digits are those of the value rounded to one
  decimal place: two values with the same rounded tenth are printed alike.
\<close>

lemma sig_digits_4:
  assumes "10 ^ 4 \<le> a" "a < 10 ^ 5 - 1"
  shows "sig_digits a = (nat (rne (a * 10)), 4)"
proof -
  have x: "ilog10 a = 4" using assms by (intro ilog10_4) simp_all
  have "real_of_int (rne (a * 10)) \<le> a * 10 + 1 / 2" using rne_near [of "a * 10"] by linarith
  also have "\<dots> < 10 ^ 6" using assms(2) by simp
  finally have "real_of_int (rne (a * 10)) < real_of_int (10 ^ 6)" by simp
  then have "rne (a * 10) < 10 ^ 6" by (simp only: of_int_less_iff)
  then have m: "nat (rne (a * 10)) \<noteq> 10 ^ 6" by (simp add: nat_eq_iff)
  have p: "a / 10 powi (4 - 5) = a * 10" by simp
  show ?thesis unfolding sig_digits_def x Let_def p using m by simp
qed

lemma show_double_same:
  assumes "10 ^ 4 \<le> a" "a < 10 ^ 5 - 1" "10 ^ 4 \<le> b" "b < 10 ^ 5 - 1"
    and "rne (a * 10) = rne (b * 10)"
  shows "show_double (Fin a) = show_double (Fin b)"
proof -
  have "sig_digits a = sig_digits b"
    unfolding sig_digits_4 [OF assms(1,2)] sig_digits_4 [OF assms(3,4)] assms(5) ..
  then have "show_pos a = show_pos b" by (simp add: show_pos_def)
  moreover have "0 < a" "0 < b" using assms(1,3) by simp_all
  ultimately show ?thesis by simp
qed

text \<open>Of four values that span less than \<open>1 / 5\<close>, two neighbours have the same rounded tenth.\<close>

lemma four_in_a_fifth:
  assumes "r0 \<le> r1" "r1 \<le> r2" "r2 \<le> r3" "r3 - r0 < 1 / 5"
  shows "rne (r0 * 10) = rne (r1 * 10) \<or> rne (r1 * 10) = rne (r2 * 10) \<or>
         rne (r2 * 10) = rne (r3 * 10)"
proof -
  have m: "rne (r0 * 10) \<le> rne (r1 * 10)" "rne (r1 * 10) \<le> rne (r2 * 10)"
    "rne (r2 * 10) \<le> rne (r3 * 10)"
    using assms(1,2,3) by (intro rne_mono; simp)+
  have "real_of_int (rne (r3 * 10)) \<le> r3 * 10 + 1 / 2" using rne_near [of "r3 * 10"] by linarith
  moreover have "r0 * 10 - 1 / 2 \<le> real_of_int (rne (r0 * 10))"
    using rne_near [of "r0 * 10"] by linarith
  ultimately have "real_of_int (rne (r3 * 10)) - real_of_int (rne (r0 * 10)) < 3"
    using assms(4) by linarith
  then have "real_of_int (rne (r3 * 10) - rne (r0 * 10)) < real_of_int 3" by simp
  then have "rne (r3 * 10) - rne (r0 * 10) < 3" by (simp only: of_int_less_iff)
  with m show ?thesis by linarith
qed

section \<open>The printed number grows with the value\<close>

lemma ten_powi_less_iff: "(10::real) powi m < 10 powi n \<longleftrightarrow> m < n"
proof
  assume l: "(10::real) powi m < 10 powi n"
  show "m < n"
  proof (rule ccontr)
    assume "\<not> m < n"
    then have "(10::real) powi n \<le> 10 powi m" by (intro power_int_increasing) auto
    with l show False by simp
  qed
next
  assume "m < n"
  then show "(10::real) powi m < 10 powi n" by (intro power_int_strict_increasing) auto
qed

lemma ten_powi_le_iff: "(10::real) powi m \<le> 10 powi n \<longleftrightarrow> m \<le> n"
  using ten_powi_less_iff [of n m] by auto

lemma ten_powi_pos: "0 < (10::real) powi n"
  by (simp add: zero_less_power_int)

lemma ten_powi_Suc: "(10::real) powi (n + 1) = 10 * 10 powi n"
  by (simp add: power_int_add)

lemma ten_powi_shift: "(10::real) powi (n + m) = 10 powi n * 10 powi m"
  by (rule power_int_add) simp

lemma ilog10_spec:
  "0 < a \<Longrightarrow> 10 powi (ilog10 a) \<le> a \<and> a < 10 powi (ilog10 a + 1)"
proof (induction a rule: ilog10.induct)
  case (1 a)
  show ?case
  proof (cases "10 \<le> a")
    case True
    with 1 have ih: "10 powi (ilog10 (a / 10)) \<le> a / 10" "a / 10 < 10 powi (ilog10 (a / 10) + 1)"
      by auto
    have e: "ilog10 a = ilog10 (a / 10) + 1"
      using True 1(3) by (subst ilog10.simps) simp
    have p: "(10::real) powi (ilog10 (a / 10) + 1 + 1) = 10 * 10 powi (ilog10 (a / 10) + 1)"
      "(10::real) powi (ilog10 (a / 10) + 1) = 10 * 10 powi (ilog10 (a / 10))"
      by (rule ten_powi_Suc)+
    show ?thesis unfolding e using ih p by linarith
  next
    case False
    show ?thesis
    proof (cases "a < 1")
      case True
      with 1 False have ih: "10 powi (ilog10 (a * 10)) \<le> a * 10"
        "a * 10 < 10 powi (ilog10 (a * 10) + 1)"
        by auto
      have e: "ilog10 a = ilog10 (a * 10) - 1"
        using True False 1(3) by (subst ilog10.simps) simp
      have p: "(10::real) powi (ilog10 (a * 10) - 1 + 1) = 10 * 10 powi (ilog10 (a * 10) - 1)"
        "(10::real) powi (ilog10 (a * 10) + 1) = 10 * 10 powi (ilog10 (a * 10))"
        by (rule ten_powi_Suc)+
      have q: "(10::real) powi (ilog10 (a * 10) - 1 + 1) = 10 powi (ilog10 (a * 10))" by simp
      show ?thesis unfolding e using ih p q by linarith
    next
      case f2: False
      have e: "ilog10 a = 0" using False f2 1(3) by (subst ilog10.simps) simp
      show ?thesis unfolding e using False f2 by simp
    qed
  qed
qed

lemma ilog10_mono:
  assumes "0 < a" "a \<le> b"
  shows "ilog10 a \<le> ilog10 b"
proof -
  have "10 powi (ilog10 a) \<le> a" using ilog10_spec [OF assms(1)] by simp
  moreover have "b < 10 powi (ilog10 b + 1)" using ilog10_spec [of b] assms by simp
  ultimately have "(10::real) powi (ilog10 a) < 10 powi (ilog10 b + 1)" using assms by linarith
  then have "ilog10 a < ilog10 b + 1"
    by (simp only: ten_powi_less_iff)
  then show ?thesis by simp
qed

text \<open>The six digits are between \<open>10 ^ 5\<close> and \<open>10 ^ 6\<close>.\<close>

lemma sig_range:
  assumes "0 < a"
  shows "10 ^ 5 \<le> rne (a / 10 powi (ilog10 a - 5))" "rne (a / 10 powi (ilog10 a - 5)) \<le> 10 ^ 6"
proof -
  define x where "x = ilog10 a"
  note u = ten_powi_pos [of "x - 5"]
  have s: "10 powi x \<le> a" "a < 10 powi (x + 1)" using ilog10_spec [OF assms] by (simp_all add: x_def)
  have "(10::real) powi x = 10 powi 5 * 10 powi (x - 5)"
    using ten_powi_shift [of 5 "x - 5"] by simp
  then have "10 powi 5 \<le> a / 10 powi (x - 5)" using s(1) u by (simp add: field_simps)
  moreover have "(10::real) powi 5 = of_int (10 ^ 5)" by simp
  ultimately have "rne (of_int (10 ^ 5)) \<le> rne (a / 10 powi (x - 5))" by (intro rne_mono) simp
  then show "10 ^ 5 \<le> rne (a / 10 powi (ilog10 a - 5))" by (simp only: rne_of_int x_def)
  have "(10::real) powi (x + 1) = 10 powi 6 * 10 powi (x - 5)"
    using ten_powi_shift [of 6 "x - 5"] by (simp add: add.commute)
  then have "a / 10 powi (x - 5) \<le> 10 powi 6" using s(2) u by (simp add: field_simps)
  moreover have "(10::real) powi 6 = of_int (10 ^ 6)" by simp
  ultimately have "rne (a / 10 powi (x - 5)) \<le> rne (of_int (10 ^ 6))" by (intro rne_mono) simp
  then show "rne (a / 10 powi (ilog10 a - 5)) \<le> 10 ^ 6" by (simp only: rne_of_int x_def)
qed

lemma shown_eq:
  assumes "0 < a"
  shows "shown a = of_int (rne (a / 10 powi (ilog10 a - 5))) * 10 powi (ilog10 a - 5)"
proof -
  define x where "x = ilog10 a"
  define q where "q = rne (a / 10 powi (x - 5))"
  have q: "10 ^ 5 \<le> q" using sig_range(1) [OF assms] by (simp add: q_def x_def)
  then have n: "real (nat q) = of_int q" by simp
  show ?thesis
  proof (cases "nat q = 10 ^ 6")
    case True
    then have "shown a = 10 ^ 5 * 10 powi (x + 1 - 5)"
      by (simp add: shown_def sig_digits_def Let_def x_def q_def)
    also have "(10::real) powi (x + 1 - 5) = 10 * 10 powi (x - 5)"
      using ten_powi_Suc [of "x - 5"] by (simp add: algebra_simps)
    finally have "shown a = 10 ^ 6 * 10 powi (x - 5)" by simp
    moreover have "real_of_int q = 10 ^ 6" using True n by simp
    ultimately show ?thesis by (simp add: x_def q_def)
  next
    case False
    then have "shown a = real (nat q) * 10 powi (x - 5)"
      by (simp add: shown_def sig_digits_def Let_def x_def q_def)
    then show ?thesis unfolding n by (simp add: x_def q_def)
  qed
qed

lemma shown_bounds:
  assumes "0 < a"
  shows "10 powi (ilog10 a) \<le> shown a" "shown a \<le> 10 powi (ilog10 a + 1)"
proof -
  define x where "x = ilog10 a"
  define q where "q = rne (a / 10 powi (x - 5))"
  note u = ten_powi_pos [of "x - 5"]
  have s: "shown a = of_int q * 10 powi (x - 5)" using shown_eq [OF assms] by (simp add: x_def q_def)
  have "real_of_int (10 ^ 5) \<le> real_of_int q" "real_of_int q \<le> real_of_int (10 ^ 6)"
    using sig_range [OF assms] by (simp_all only: of_int_le_iff q_def x_def)
  then have q: "10 ^ 5 \<le> real_of_int q" "real_of_int q \<le> 10 ^ 6" by simp_all
  have "(10::real) powi x = 10 ^ 5 * 10 powi (x - 5)"
    using ten_powi_shift [of 5 "x - 5"] by simp
  also have "\<dots> \<le> of_int q * 10 powi (x - 5)" using q(1) u by (intro mult_right_mono) simp_all
  finally show "10 powi (ilog10 a) \<le> shown a" by (simp add: s x_def)
  have "real_of_int q * 10 powi (x - 5) \<le> 10 ^ 6 * 10 powi (x - 5)"
    using q(2) u by (intro mult_right_mono) simp_all
  also have "\<dots> = 10 powi (x + 1)"
    using ten_powi_shift [of 6 "x - 5"] by (simp add: add.commute)
  finally show "shown a \<le> 10 powi (ilog10 a + 1)" by (simp add: s x_def)
qed

lemma shown_mono:
  assumes "0 < a" "a \<le> b"
  shows "shown a \<le> shown b"
proof -
  have b: "0 < b" using assms by simp
  have le: "ilog10 a \<le> ilog10 b" by (rule ilog10_mono [OF assms])
  show ?thesis
  proof (cases "ilog10 a = ilog10 b")
    case True
    note u = ten_powi_pos [of "ilog10 b - 5"]
    have "a / 10 powi (ilog10 b - 5) \<le> b / 10 powi (ilog10 b - 5)"
      using assms u by (simp add: field_simps)
    then have "rne (a / 10 powi (ilog10 b - 5)) \<le> rne (b / 10 powi (ilog10 b - 5))"
      by (rule rne_mono)
    then have "real_of_int (rne (a / 10 powi (ilog10 b - 5))) \<le>
        real_of_int (rne (b / 10 powi (ilog10 b - 5)))" by simp
    then show ?thesis
      unfolding shown_eq [OF assms(1)] shown_eq [OF b] True using u
      by (simp add: mult_right_mono)
  next
    case False
    with le have "ilog10 a + 1 \<le> ilog10 b" by simp
    then have "(10::real) powi (ilog10 a + 1) \<le> 10 powi (ilog10 b)"
      by (simp only: ten_powi_le_iff)
    then show ?thesis using shown_bounds(2) [OF assms(1)] shown_bounds(1) [OF b] by linarith
  qed
qed

section \<open>The error of one rounding\<close>

text \<open>Up to \<open>2 ^ 22\<close> the multiples of \<open>1 / 2 ^ 30\<close> are doubles: rounding moves a value by at
  most \<open>1 / 2 ^ 30\<close>.\<close>

lemma rnd_near:
  assumes "\<bar>x\<bar> \<le> 2 ^ 22"
  shows "\<exists>y. rnd x = Fin y \<and> \<bar>y - x\<bar> \<le> 1 / 2 ^ 30"
proof -
  define g where "g = \<lfloor>x * 2 ^ 30\<rfloor>"
  define lo :: real where "lo = of_int g / 2 ^ 30"
  define hi :: real where "hi = of_int (g + 1) / 2 ^ 30"
  have "- (2 ^ 52) \<le> x * 2 ^ 30" "x * 2 ^ 30 \<le> 2 ^ 52" using assms by simp_all
  then have "- (2 ^ 52) \<le> \<lfloor>x * 2 ^ 30\<rfloor> \<and> \<lfloor>x * 2 ^ 30\<rfloor> \<le> 2 ^ 52"
    by (subst le_floor_iff, subst floor_le_iff) simp
  then have gb: "- (2 ^ 52) \<le> g \<and> g \<le> 2 ^ 52" by (simp add: g_def)
  then have b: "\<bar>g\<bar> < 2 ^ 53" "\<bar>g + 1\<bar> < 2 ^ 53" by (simp; linarith)+
  have rlo: "rnd lo = Fin lo" unfolding lo_def by (rule rnd_grid [OF _ b(1)]) simp
  have rhi: "rnd hi = Fin hi" unfolding hi_def by (rule rnd_grid [OF _ b(2)]) simp
  have "of_int g \<le> x * 2 ^ 30" "x * 2 ^ 30 < of_int (g + 1)" unfolding g_def by linarith+
  then have x: "lo \<le> x" "x \<le> hi" by (simp_all add: lo_def hi_def field_simps)
  have w: "hi - lo = 1 / 2 ^ 30" by (simp add: lo_def hi_def field_simps)
  have "dle (Fin lo) (rnd x)" "dle (rnd x) (Fin hi)"
    using rnd_mono [OF x(1)] rnd_mono [OF x(2)] by (simp_all add: rlo rhi)
  then obtain y where y: "rnd x = Fin y" "lo \<le> y" "y \<le> hi" by (cases "rnd x") simp_all
  then have "\<bar>y - x\<bar> \<le> 1 / 2 ^ 30" using x w by linarith
  with y(1) show ?thesis by blast
qed

lemma acc_near:
  assumes "0 \<le> r" "r \<le> 2 ^ 22 - 1" "0 \<le> c" "c \<le> 1"
  shows "\<exists>r'. rnd (r + c) = Fin r' \<and> r + c - 1 / 2 ^ 30 \<le> r' \<and> r' \<le> r + c + 1 / 2 ^ 30"
proof -
  have "\<bar>r + c\<bar> \<le> 2 ^ 22" using assms by simp
  from rnd_near [OF this] obtain y where "rnd (r + c) = Fin y" "\<bar>y - (r + c)\<bar> \<le> 1 / 2 ^ 30"
    by blast
  then have "rnd (r + c) = Fin y" "r + c - 1 / 2 ^ 30 \<le> y" "y \<le> r + c + 1 / 2 ^ 30"
    by linarith+
  then show ?thesis by blast
qed

text \<open>The two increments are a little above \<open>1 / 10\<close> and \<open>1 / 20\<close>.\<close>

lemma increment_bounds:
  assumes "c = lit (1 / 10) \<or> c = lit (5 / 100)"
  obtains cr where "c = Fin cr" "1 / 20 \<le> cr" "cr \<le> 1 / 10 + 1 / 2 ^ 30"
proof -
  from assms consider "c = Fin (3602879701896397 / 36028797018963968)"
    | "c = Fin (3602879701896397 / 72057594037927936)"
    unfolding lit_increments by blast
  then show ?thesis
  proof cases
    case 1
    show ?thesis by (rule that [of "3602879701896397 / 36028797018963968"]) (simp_all add: 1)
  next
    case 2
    show ?thesis by (rule that [of "3602879701896397 / 72057594037927936"]) (simp_all add: 2)
  qed
qed

text \<open>
  The accumulator after \<open>n\<close> additions is at least \<open>n * (1 / 20 - 1 / 2 ^ 30)\<close> and at most
  \<open>n * (1 / 10 + 1 / 2 ^ 29)\<close>.
\<close>

lemma acc_bounds:
  assumes "\<forall>c\<in>set cs. c = lit (1 / 10) \<or> c = lit (5 / 100)"
    and "0 \<le> r" "r + real (length cs) / 8 \<le> 2 ^ 22 - 1"
  shows "\<exists>r'. foldl dadd (Fin r) cs = Fin r' \<and>
           r + real (length cs) * (1 / 20 - 1 / 2 ^ 30) \<le> r' \<and>
           r' \<le> r + real (length cs) * (1 / 10 + 1 / 2 ^ 29)"
  using assms
proof (induction cs arbitrary: r)
  case Nil
  then show ?case by simp
next
  case (Cons c cs)
  have "c = lit (1 / 10) \<or> c = lit (5 / 100)" using Cons.prems(1) by (simp del: lit_def)
  then obtain cr where cr: "c = Fin cr" "1 / 20 \<le> cr" "cr \<le> 1 / 10 + 1 / 2 ^ 30"
    by (rule increment_bounds)
  have "0 \<le> real (length (c # cs)) / 8" by simp
  then have rb: "r \<le> 2 ^ 22 - 1" using Cons.prems(3) by linarith
  have c1: "0 \<le> cr" "cr \<le> 1" using cr(2,3) by simp_all
  from acc_near [OF Cons.prems(2) rb c1] obtain r1 where r1:
    "rnd (r + cr) = Fin r1" "r + cr - 1 / 2 ^ 30 \<le> r1" "r1 \<le> r + cr + 1 / 2 ^ 30" by blast
  have lo: "r + (1 / 20 - 1 / 2 ^ 30) \<le> r1" using r1(2) cr(2) by simp
  have hi: "r1 \<le> r + (1 / 10 + 1 / 2 ^ 29)" using r1(3) cr(3) by simp
  have p: "0 \<le> r1" using lo Cons.prems(2) by simp
  have "r1 \<le> r + 1 / 8" using hi by simp
  moreover have "real (length (c # cs)) / 8 = 1 / 8 + real (length cs) / 8" by simp
  ultimately have q: "r1 + real (length cs) / 8 \<le> 2 ^ 22 - 1" using Cons.prems(3) by linarith
  have "\<forall>c\<in>set cs. c = lit (1 / 10) \<or> c = lit (5 / 100)" using Cons.prems(1) by (simp del: lit_def)
  from Cons.IH [OF this p q] obtain r' where r':
    "foldl dadd (Fin r1) cs = Fin r'"
    "r1 + real (length cs) * (1 / 20 - 1 / 2 ^ 30) \<le> r'"
    "r' \<le> r1 + real (length cs) * (1 / 10 + 1 / 2 ^ 29)" by blast
  have "foldl dadd (Fin r) (c # cs) = Fin r'" by (simp add: cr(1) r1(1) r'(1))
  moreover have "r + real (length (c # cs)) * (1 / 20 - 1 / 2 ^ 30) \<le> r'"
  proof -
    have "real (length (c # cs)) * (1 / 20 - 1 / 2 ^ 30) =
        (1 / 20 - 1 / 2 ^ 30) + real (length cs) * (1 / 20 - 1 / 2 ^ 30)"
      by (simp only: list.size of_nat_add of_nat_Suc distrib_right) simp
    then show ?thesis using lo r'(2) by linarith
  qed
  moreover have "r' \<le> r + real (length (c # cs)) * (1 / 10 + 1 / 2 ^ 29)"
  proof -
    have "real (length (c # cs)) * (1 / 10 + 1 / 2 ^ 29) =
        (1 / 10 + 1 / 2 ^ 29) + real (length cs) * (1 / 10 + 1 / 2 ^ 29)"
      by (simp only: list.size of_nat_add of_nat_Suc distrib_right) simp
    then show ?thesis using hi r'(3) by linarith
  qed
  ultimately show ?case by blast
qed

lemma running_snoc: "running e (cs @ [c]) = running e cs @ [foldl dadd e (cs @ [c])]"
  by (simp add: running_append)

lemma running_last: "cs \<noteq> [] \<Longrightarrow> running e cs = running e (butlast cs) @ [foldl dadd e cs]"
  using running_snoc [of e "butlast cs" "last cs"] by simp

text \<open>
  After 200020 to 700000 extrusion moves the accumulator is between \<open>10 ^ 4\<close> and
  \<open>10 ^ 5\<close>, where six significant digits leave one decimal place.  Three more additions
  of 0.05 give four increasing values that span less than \<open>1 / 5\<close>: two neighbours among
  them are printed alike.
\<close>

lemma repeated_field:
  assumes incs: "\<forall>c\<in>set xs. c = lit (1 / 10) \<or> c = lit (5 / 100)"
    and len: "200020 \<le> length xs" "length xs \<le> 700000"
  shows "\<exists>B r0 r1 r2 r3.
    running (Fin 0) (xs @ replicate 3 (lit (5 / 100))) = B @ [Fin r0, Fin r1, Fin r2, Fin r3] \<and>
    r0 < r1 \<and> r1 < r2 \<and> r2 < r3 \<and>
    (show_double (Fin r0) = show_double (Fin r1) \<or>
     show_double (Fin r1) = show_double (Fin r2) \<or>
     show_double (Fin r2) = show_double (Fin r3))"
proof -
  define c :: real where "c = 3602879701896397 / 72057594037927936"
  have lc: "lit (5 / 100) = Fin c" unfolding c_def by (rule lit_increments(2))
  then have lc': "lit (1 / 20) = Fin c" by (simp del: lit_def)
  have cb: "1 / 20 \<le> c" "c \<le> 1 / 20 + 1 / 2 ^ 30" "0 \<le> c" "c \<le> 1" by (simp_all add: c_def)
  have n: "200020 \<le> real (length xs)" "real (length xs) \<le> 700000" using len by simp_all
  have "0 + real (length xs) / 8 \<le> 2 ^ 22 - 1" using n(2) by simp
  from acc_bounds [OF incs _ this] obtain r0 where r0:
    "foldl dadd (Fin 0) xs = Fin r0"
    "real (length xs) * (1 / 20 - 1 / 2 ^ 30) \<le> r0"
    "r0 \<le> real (length xs) * (1 / 10 + 1 / 2 ^ 29)" by auto
  have "200020 * (1 / 20 - 1 / 2 ^ 30) \<le> real (length xs) * (1 / 20 - 1 / 2 ^ 30)"
    using n(1) by (intro mult_right_mono) simp_all
  then have lo: "10 ^ 4 + 1 / 2 \<le> r0" using r0(2) by simp
  have "real (length xs) * (1 / 10 + 1 / 2 ^ 29) \<le> 700000 * (1 / 10 + 1 / 2 ^ 29)"
    using n(2) by (intro mult_right_mono) simp_all
  then have hi: "r0 \<le> 70001" using r0(3) by simp
  have s0: "0 \<le> r0" "r0 \<le> 2 ^ 22 - 1" using lo hi by simp_all
  from acc_near [OF s0 cb(3,4)] obtain r1 where r1:
    "rnd (r0 + c) = Fin r1" "r0 + c - 1 / 2 ^ 30 \<le> r1" "r1 \<le> r0 + c + 1 / 2 ^ 30" by blast
  have s1: "0 \<le> r1" "r1 \<le> 2 ^ 22 - 1" using r1(2,3) cb lo hi by simp_all
  from acc_near [OF s1 cb(3,4)] obtain r2 where r2:
    "rnd (r1 + c) = Fin r2" "r1 + c - 1 / 2 ^ 30 \<le> r2" "r2 \<le> r1 + c + 1 / 2 ^ 30" by blast
  have s2: "0 \<le> r2" "r2 \<le> 2 ^ 22 - 1" using r2(2,3) r1(2,3) cb lo hi by simp_all
  from acc_near [OF s2 cb(3,4)] obtain r3 where r3:
    "rnd (r2 + c) = Fin r3" "r2 + c - 1 / 2 ^ 30 \<le> r3" "r3 \<le> r2 + c + 1 / 2 ^ 30" by blast
  have d: "(1::real) / 2 ^ 30 < 1 / 20" by simp
  have inc: "r0 < r1" "r1 < r2" "r2 < r3" using r1(2) r2(2) r3(2) cb(1) d by linarith+
  have span: "r3 - r0 < 1 / 5" using r1(3) r2(3) r3(3) cb(2) by simp
  have rg: "10 ^ 4 \<le> r0" "r0 < 10 ^ 5 - 1" "10 ^ 4 \<le> r1" "r1 < 10 ^ 5 - 1"
    "10 ^ 4 \<le> r2" "r2 < 10 ^ 5 - 1" "10 ^ 4 \<le> r3" "r3 < 10 ^ 5 - 1"
    using lo hi inc span by simp_all
  have ne: "xs \<noteq> []" using len(1) by auto
  have "running (Fin 0) (xs @ replicate 3 (lit (5 / 100))) =
      running (Fin 0) xs @ running (Fin r0) [Fin c, Fin c, Fin c]"
    by (simp add: running_append r0(1) lc' numeral_3_eq_3 del: lit_def)
  also have "running (Fin r0) [Fin c, Fin c, Fin c] = [Fin r1, Fin r2, Fin r3]"
    by (simp add: r1(1) r2(1) r3(1))
  also have "running (Fin 0) xs = running (Fin 0) (butlast xs) @ [Fin r0]"
    using running_last [OF ne, of "Fin 0"] by (simp add: r0(1))
  finally have e: "running (Fin 0) (xs @ replicate 3 (lit (5 / 100))) =
      running (Fin 0) (butlast xs) @ [Fin r0, Fin r1, Fin r2, Fin r3]" by simp
  from four_in_a_fifth [of r0 r1 r2 r3] inc span
  have "rne (r0 * 10) = rne (r1 * 10) \<or> rne (r1 * 10) = rne (r2 * 10) \<or>
         rne (r2 * 10) = rne (r3 * 10)" by simp
  then have "show_double (Fin r0) = show_double (Fin r1) \<or>
     show_double (Fin r1) = show_double (Fin r2) \<or>
     show_double (Fin r2) = show_double (Fin r3)"
    using show_double_same [OF rg(1,2,3,4)] show_double_same [OF rg(3,4,5,6)]
      show_double_same [OF rg(5,6,7,8)] by blast
  with e inc show ?thesis by blast
qed

section \<open>The cube with layer height 1 / 4096 and infill density 100\<close>

lemma cube_fine_fields:
  "triangles cube_fine = cube_triangles" "layerHeight cube_fine = Fin (1 / 4096)"
  "infillDensity cube_fine = Fin 100"
  by (simp_all add: cube_fine_def setLayerHeight_def setInfillDensity_def cube_fields)

lemmas cube_fine_bbox = cube_bbox [OF cube_fine_fields(1)]

lemma cube_fine_count: "spec_layer_count (- 5) 5 (1 / 4096) = 40961"
  by (simp add: spec_layer_count_def)

text \<open>Every plane height \<open>- 5 + i / 4096\<close> is a double: there are 40961 planes.\<close>

lemma cube_fine_planes:
  shows "exits (\<lambda>z. dadd z (layerHeight cube_fine)) (getBoundingBox cube_fine ! 5)
     (getBoundingBox cube_fine ! 2) 40961"
    and "i \<le> 40961 \<Longrightarrow> plane cube_fine i = Fin (- 5 + real i / 4096)"
proof -
  have ex: "\<forall>i\<le>spec_layer_count (- 5) 5 (1 / 4096).
      rnd (spec_layer_height (- 5) (1 / 4096) i) = Fin (spec_layer_height (- 5) (1 / 4096) i)"
  proof (intro allI impI)
    fix i assume "i \<le> spec_layer_count (- 5) 5 (1 / 4096)"
    then have i: "i \<le> 40961" by (simp only: cube_fine_count)
    define m where "m = int i - 5 * 2 ^ 12"
    have "\<bar>m\<bar> < 2 ^ 53" using i by (simp add: m_def)
    from rnd_grid [OF _ this, of 12]
    have r: "rnd (of_int m / 2 ^ 12) = Fin (of_int m / 2 ^ 12)" by simp
    have e: "spec_layer_height (- 5) (1 / 4096) i = of_int m / 2 ^ 12"
      by (simp add: spec_layer_height_def m_def field_simps)
    show "rnd (spec_layer_height (- 5) (1 / 4096) i) =
        Fin (spec_layer_height (- 5) (1 / 4096) i)" unfolding e by (rule r)
  qed
  note c = exact_count [OF _ _ cube_fine_fields(2) _ _ ex, unfolded cube_fine_count]
  show "exits (\<lambda>z. dadd z (layerHeight cube_fine)) (getBoundingBox cube_fine ! 5)
     (getBoundingBox cube_fine ! 2) 40961"
    by (rule c(1)) (simp_all add: cube_fine_bbox)
  show "i \<le> 40961 \<Longrightarrow> plane cube_fine i = Fin (- 5 + real i / 4096)"
    using c(2) [of i] by (simp add: cube_fine_bbox spec_layer_height_def)
qed

text \<open>The step of the loop over X is 2: six infill lines, at \<open>-5\<close>, \<open>-3\<close>, \<open>-1\<close>, 1, 3 and 5.\<close>

lemma cube_fine_infill_exits:
  "exits (\<lambda>x. dadd x (infill_step cube_fine)) (getBoundingBox cube_fine ! 3)
     (getBoundingBox cube_fine ! 0) 6"
  by (simp add: exits_numeral exits_Suc exits_0 infill_step_def cube_fine_bbox cube_fine_fields
      rnd_eval)

lemma cube_fine_slice:
  assumes "2990153 \<le> mem"
  shows "\<exists>layers. slice mem cube_fine = Some (Inr layers) \<and> length layers = 40961"
  by (rule slice_returns_count [OF cube_fine_planes(1) cube_fine_infill_exits])
     (use assms in \<open>simp add: cube_fine_fields cube_triangles_def\<close>)

text \<open>A plane between the bottom and the top of the cube meets a side triangle.\<close>

lemma cube_crossed:
  assumes "dle (Fin (- 5)) z" "dle z (Fin 5)"
  shows "\<exists>t\<in>set cube_triangles. crosses t z"
proof -
  define t where "t = Triangle (corner (- 5) (- 5) (- 5)) (corner 5 (- 5) (- 5)) (corner 5 (- 5) 5)"
  have "t \<in> set cube_triangles" by (simp add: t_def cube_triangles_def)
  moreover have "crosses t z" using assms by (simp add: t_def crosses_def corner_def)
  ultimately show ?thesis by blast
qed

lemma line_increments_infill:
  "concat (map line_increments (map (\<lambda>k. infill_line s z (f k)) ks)) =
     replicate (length ks) (lit (5 / 100))"
  by (induction ks) (simp_all add: line_increments_def infill_line_def del: lit_def)

text \<open>The increments of a layer with a contour of \<open>c\<close> points and \<open>m\<close> infill lines.\<close>

lemma layer_increments_Some:
  assumes "slice_layer s z = Some layer" "\<exists>t\<in>set (triangles s). crosses t z"
    and "exits (\<lambda>x. dadd x (infill_step s)) (getBoundingBox s ! 3) (getBoundingBox s ! 0) m"
  shows "\<exists>c\<le>length (triangles s).
    layer_increments layer = replicate (c - 1) (lit (1 / 10)) @ replicate m (lit (5 / 100))"
proof -
  have ne: "scan (triangles s) z [] \<noteq> []" using assms(2) by (simp add: scan_Nil_iff)
  note f = slice_layer_Some(3) [OF assms(1) ne]
  from generateInfill_Some [OF f [THEN conjunct2]] obtain n where n:
    "exits (\<lambda>x. dadd x (infill_step s)) (getBoundingBox s ! 3) (getBoundingBox s ! 0) n"
    "infill layer = map (\<lambda>k. infill_line s z (infill_x s k)) [0..<n]" by blast
  have nm: "n = m" using exits_unique [OF n(1) assms(3)] .
  have "layer_increments layer =
      replicate (length (scan (triangles s) z []) - 1) (lit (1 / 10)) @ replicate m (lit (5 / 100))"
    unfolding layer_increments_def n(2) line_increments_infill
    using f by (simp add: contour_increments_def nm del: lit_def)
  then show ?thesis using length_scan [of "triangles s" z] by blast
qed

lemma length_concat_bounds:
  assumes "\<forall>x\<in>set xs. a \<le> length (f x) \<and> length (f x) \<le> b"
  shows "a * length xs \<le> length (concat (map f xs)) \<and> length (concat (map f xs)) \<le> b * length xs"
  using assms
proof (induction xs)
  case Nil
  show ?case by simp
next
  case (Cons x xs)
  then have "a \<le> length (f x)" "length (f x) \<le> b"
    "a * length xs \<le> length (concat (map f xs))" "length (concat (map f xs)) \<le> b * length xs"
    by simp_all
  then show ?case by simp
qed

text \<open>
  Every layer of this cube has a contour of at most twelve points and six infill lines:
  between 6 and 17 extrusion moves, the last six of them infill lines.
\<close>

lemma cube_fine_layer:
  assumes "slice mem cube_fine = Some (Inr layers)" "layer \<in> set layers"
  shows "\<exists>c\<le>12. layer_increments layer =
      replicate (c - 1) (lit (1 / 10)) @ replicate 6 (lit (5 / 100))"
proof -
  obtain k where k: "k < length layers" "layer = layers ! k"
    using assms(2) by (auto simp: in_set_conv_nth)
  have n: "length layers = 40961"
    using exits_unique [OF slice_Some [OF assms(1), THEN conjunct1] cube_fine_planes(1)] .
  note l = slice_nth [OF assms(1) k(1), folded k(2)]
  have "plane cube_fine k = Fin (- 5 + real k / 4096)"
    using cube_fine_planes(2) [of k] k(1) n by simp
  then have lo: "dle (Fin (- 5)) (plane cube_fine k)" by simp
  have hi: "dle (plane cube_fine k) (Fin 5)" using l(2) by (simp add: cube_fine_bbox)
  have "\<exists>t\<in>set (triangles cube_fine). crosses t (plane cube_fine k)"
    unfolding cube_fine_fields by (rule cube_crossed [OF lo hi])
  moreover have "length (triangles cube_fine) = 12"
    by (simp add: cube_fine_fields cube_triangles_def)
  ultimately show ?thesis
    using layer_increments_Some [OF l(1) _ cube_fine_infill_exits] by simp
qed

lemma extrusion_increments_snoc:
  "extrusion_increments (ls @ [l]) = extrusion_increments ls @ layer_increments l"
  by (simp add: extrusion_increments_def)

text \<open>
  The whole toolpath has between 245766 and 696337 extrusion moves and ends with three
  infill lines.
\<close>

lemma cube_fine_increments:
  assumes "slice mem cube_fine = Some (Inr layers)"
  shows "\<exists>xs. extrusion_increments layers = xs @ replicate 3 (lit (5 / 100)) \<and>
    200020 \<le> length xs \<and> length xs \<le> 700000"
proof -
  have n: "length layers = 40961"
    using exits_unique [OF slice_Some [OF assms, THEN conjunct1] cube_fine_planes(1)] .
  have b: "\<forall>l\<in>set layers. 6 \<le> length (layer_increments l) \<and> length (layer_increments l) \<le> 17"
  proof
    fix l assume "l \<in> set layers"
    from cube_fine_layer [OF assms this] obtain c where
      "c \<le> 12" "layer_increments l = replicate (c - 1) (lit (1 / 10)) @ replicate 6 (lit (5 / 100))"
      by blast
    then show "6 \<le> length (layer_increments l) \<and> length (layer_increments l) \<le> 17" by simp
  qed
  from length_concat_bounds [OF this]
  have len: "245766 \<le> length (extrusion_increments layers)"
    "length (extrusion_increments layers) \<le> 696337"
    by (simp_all add: extrusion_increments_def n)
  have ne: "layers \<noteq> []" using n by auto
  then have "last layers \<in> set layers" by simp
  from cube_fine_layer [OF assms this] obtain c where c:
    "layer_increments (last layers) =
       replicate (c - 1) (lit (1 / 10)) @ replicate 6 (lit (5 / 100))" by blast
  define xs where "xs = extrusion_increments (butlast layers) @
      replicate (c - 1) (lit (1 / 10)) @ replicate 3 (lit (5 / 100))"
  have "replicate 6 (lit (5 / 100)) = replicate 3 (lit (5 / 100)) @ replicate 3 (lit (5 / 100))"
    by (simp add: replicate_add [symmetric] del: lit_def)
  then have e: "extrusion_increments layers = xs @ replicate 3 (lit (5 / 100))"
    using extrusion_increments_snoc [of "butlast layers" "last layers"] ne
    by (simp add: c xs_def del: lit_def)
  then have "length (extrusion_increments layers) = length xs + 3" by simp
  with len have "200020 \<le> length xs" "length xs \<le> 700000" by simp_all
  with e show ?thesis by blast
qed

text \<open>
  Among the last four extrusion values written for this cube, two neighbours are written
  with the same text.
\<close>

lemma cube_fine_fields_repeat:
  assumes "gcode_stream mem cube_fine = Some (Inr toks)"
  shows "\<exists>i. length (e_values toks) - 4 \<le> i \<and> Suc i < length (e_values toks) \<and>
    dlt (e_values toks ! i) (e_values toks ! Suc i) \<and>
    show_double (e_values toks ! i) = show_double (e_values toks ! Suc i)"
proof -
  from gcode_stream_Inr [OF assms] obtain layers
    where l: "slice mem cube_fine = Some (Inr layers)" "layers \<noteq> []" by blast
  from gcode_stream_Some [OF l] assms
  have e: "e_values toks = running (Fin 0) (extrusion_increments layers)" by auto
  from cube_fine_increments [OF l(1)] obtain xs where xs:
    "extrusion_increments layers = xs @ replicate 3 (lit (5 / 100))"
    "200020 \<le> length xs" "length xs \<le> 700000" by blast
  have "\<forall>c\<in>set xs. c = lit (1 / 10) \<or> c = lit (5 / 100)"
    using extrusion_increments_set [of layers] unfolding xs(1) by (simp del: lit_def)
  from repeated_field [OF this xs(2,3)] obtain B r0 r1 r2 r3 where r:
    "e_values toks = B @ [Fin r0, Fin r1, Fin r2, Fin r3]"
    "r0 < r1" "r1 < r2" "r2 < r3"
    "show_double (Fin r0) = show_double (Fin r1) \<or>
     show_double (Fin r1) = show_double (Fin r2) \<or>
     show_double (Fin r2) = show_double (Fin r3)"
    unfolding e xs(1) by blast
  have n: "length (e_values toks) = length B + 4" by (simp add: r(1))
  have v: "e_values toks ! length B = Fin r0" "e_values toks ! Suc (length B) = Fin r1"
    "e_values toks ! Suc (Suc (length B)) = Fin r2"
    "e_values toks ! Suc (Suc (Suc (length B))) = Fin r3"
    by (simp_all add: r(1) nth_append)
  from r(5) consider "show_double (Fin r0) = show_double (Fin r1)"
    | "show_double (Fin r1) = show_double (Fin r2)"
    | "show_double (Fin r2) = show_double (Fin r3)" by blast
  then show ?thesis
  proof cases
    case 1
    show ?thesis by (rule exI [of _ "length B"]) (simp add: n v r(2) 1 del: show_double.simps)
  next
    case 2
    show ?thesis by (rule exI [of _ "Suc (length B)"]) (simp add: n v r(3) 2 del: show_double.simps)
  next
    case 3
    show ?thesis
      by (rule exI [of _ "Suc (Suc (length B))"]) (simp add: n v r(4) 3 del: show_double.simps)
  qed
qed

section \<open>The properties of the specification\<close>

text \<open>
  C1 (as amended).  For every mesh and every configuration, whenever \<^verbatim>\<open>slice\<close> returns it
  has produced one layer for each plane height \<open>z\<^sub>0 = minZ\<close>, \<open>z\<^sub>i\<^sub>+\<^sub>1 = z\<^sub>i + layerHeight\<close> (an
  addition of doubles, rounded each time) up to the first one that is not \<open>\<le> maxZ\<close>; the
  layer of index \<open>i\<close> has height \<open>z\<^sub>i\<close>; a layer is emitted also where no triangle meets the
  plane, with no contour and no infill; and the layers fit the heap.  When \<open>h > 0\<close> and
  every \<open>minZ + i * h\<close> up to the layer count of the specification is a double, the
  rounding does nothing: there are exactly \<open>floor ((maxZ - minZ) / h) + 1\<close> layers and the
  layer of index \<open>i\<close> has height \<open>minZ + i * h\<close>.  For every mesh of finite coordinates of
  magnitude at most \<open>2 ^ 22\<close>, every layer height of at least \<open>2 powi - 30\<close> and every infill
  density in \<open>(0, 100]\<close> the planes are finitely many and \<^verbatim>\<open>slice\<close> ends: it returns their
  layers when the heap can hold them, and ends in an allocation failure when it cannot.
\<close>

theorem slice_layers:
  "plane s 0 = getBoundingBox s ! 2 \<and>
   (\<forall>i. plane s (Suc i) = dadd (plane s i) (layerHeight s)) \<and>
   (\<forall>layers. slice mem s = Some (Inr layers) \<longrightarrow>
      (\<forall>i<length layers. dle (plane s i) (getBoundingBox s ! 5)) \<and>
      \<not> dle (plane s (length layers)) (getBoundingBox s ! 5) \<and>
      (\<forall>i<length layers. height (layers ! i) = plane s i \<and>
          (\<not> (\<exists>t\<in>set (triangles s). crosses t (plane s i)) \<longrightarrow>
             contours (layers ! i) = [] \<and> infill (layers ! i) = [])) \<and>
      storage layers \<le> mem \<and>
      (\<forall>a b h. getBoundingBox s ! 2 = Fin a \<and> getBoundingBox s ! 5 = Fin b \<and> a \<le> b \<and>
          layerHeight s = Fin h \<and> 0 < h \<and>
          (\<forall>i\<le>spec_layer_count a b h.
              rnd (spec_layer_height a h i) = Fin (spec_layer_height a h i)) \<longrightarrow>
          length layers = spec_layer_count a b h \<and>
          (\<forall>i<length layers. height (layers ! i) = Fin (spec_layer_height a h i)))) \<and>
   (mesh_within (2 ^ 22) (triangles s) \<and> step_ok (layerHeight s) \<and>
      density_ok (infillDensity s) \<longrightarrow>
      (\<exists>layers. \<forall>m. slice m s =
          (if storage layers \<le> m then Some (Inr layers) else Some (Inl Bad_alloc))))"
proof -
  have 0: "plane s 0 = getBoundingBox s ! 2"
    "plane s (Suc i) = dadd (plane s i) (layerHeight s)" for i
    by (simp_all add: plane_def)
  have 1: "(\<forall>i<length layers. dle (plane s i) (getBoundingBox s ! 5)) \<and>
    \<not> dle (plane s (length layers)) (getBoundingBox s ! 5)"
    if "slice mem s = Some (Inr layers)" for layers
    using slice_Some [OF that, THEN conjunct1] unfolding plane_exits .
  have 2: "height (layers ! i) = plane s i \<and>
        (\<not> (\<exists>t\<in>set (triangles s). crosses t (plane s i)) \<longrightarrow>
           contours (layers ! i) = [] \<and> infill (layers ! i) = [])"
    if "slice mem s = Some (Inr layers)" "i < length layers" for layers i
    using slice_layer_Some(1,2) [OF slice_nth(1) [OF that]] by (simp add: scan_Nil_iff)
  have 3: "length layers = spec_layer_count a b h \<and>
        (\<forall>i<length layers. height (layers ! i) = Fin (spec_layer_height a h i))"
    if l: "slice mem s = Some (Inr layers)"
      and h: "getBoundingBox s ! 2 = Fin a" "getBoundingBox s ! 5 = Fin b" "a \<le> b"
        "layerHeight s = Fin h" "0 < h"
        "\<forall>i\<le>spec_layer_count a b h. rnd (spec_layer_height a h i) = Fin (spec_layer_height a h i)"
    for layers a b h
  proof -
    note c = exact_count [OF h(1,2,4,5,3,6)]
    have n: "length layers = spec_layer_count a b h"
      using exits_unique [OF slice_Some [OF l, THEN conjunct1] c(1)] .
    then show ?thesis using 2 [OF l] c(2) by simp
  qed
  have 4: "storage layers \<le> mem" if "slice mem s = Some (Inr layers)" for layers
    using slice_Some [OF that] by simp
  have 5: "\<exists>layers. \<forall>m. slice m s =
          (if storage layers \<le> m then Some (Inr layers) else Some (Inl Bad_alloc))"
    if "mesh_within (2 ^ 22) (triangles s)" "step_ok (layerHeight s)" "density_ok (infillDensity s)"
    using slice_returns [OF that] .
  from 0 1 2 3 4 5 show ?thesis by blast
qed

theorem slice_layers_witness:
  "mesh_within (2 ^ 22) (triangles cube4) \<and> step_ok (layerHeight cube4) \<and>
   density_ok (infillDensity cube4) \<and>
   slice 117 cube4 = Some (Inr cube4_layers) \<and> storage cube4_layers = 117 \<and>
   slice 116 cube4 = Some (Inl Bad_alloc) \<and>
   length cube4_layers = 3 \<and> spec_layer_count (- 5) 5 4 = 3 \<and>
   map height cube4_layers = [Fin (- 5), Fin (- 1), Fin 3] \<and>
   slice 1 new_SimpleSlicer = Some (Inr [\<lparr>height = Fin 0, contours = [], infill = []\<rparr>]) \<and>
   triangles new_SimpleSlicer = [] \<and>
   mesh_within (2 ^ 22) (triangles cube30) \<and> step_ok (layerHeight cube30) \<and>
   density_ok (infillDensity cube30) \<and> slice (2 ^ 29) cube30 = Some (Inl Bad_alloc)"
proof -
  have a: "mesh_within (2 ^ 22) (triangles cube4)" "step_ok (layerHeight cube4)"
    "density_ok (infillDensity cube4)"
    unfolding cube4_fields by (rule cube_within) simp_all
  have b: "mesh_within (2 ^ 22) (triangles cube30)" "step_ok (layerHeight cube30)"
    "density_ok (infillDensity cube30)"
    unfolding cube30_fields by (rule cube_within) simp_all
  have f: "slice (2 ^ 29) cube30 = Some (Inl Bad_alloc)" by (rule cube30_slice) simp
  have s: "slice 117 cube4 = Some (Inr cube4_layers)" "slice 116 cube4 = Some (Inl Bad_alloc)"
    by (simp_all add: cube4_slice)
  have c: "spec_layer_count (- 5) 5 4 = 3" by (simp add: spec_layer_count_def)
  have d: "map height cube4_layers = [Fin (- 5), Fin (- 1), Fin 3]"
    by (simp add: cube4_layers_def cube4_layer0_def cube4_layer1_def cube4_layer2_def)
  have e: "\<forall>i\<le>spec_layer_count (- 5) 5 4.
      rnd (spec_layer_height (- 5) 4 i) = Fin (spec_layer_height (- 5) 4 i)"
    unfolding c by (simp add: numeral_3_eq_3 All_less_Suc le_Suc_eq all_conj_distrib
        spec_layer_height_def rnd_eval)
  note t = slice_layers [of cube4 117]
  have "length cube4_layers = spec_layer_count (- 5) 5 4"
    using t s(1) e by (simp add: cube4_bbox cube4_fields)
  moreover have "storage cube4_layers \<le> 117" using t s(1) by blast
  moreover have "\<exists>layers. \<forall>m. slice m cube4 =
      (if storage layers \<le> m then Some (Inr layers) else Some (Inl Bad_alloc))"
    using t a by blast
  moreover note u = slice_layers [of new_SimpleSlicer 1]
  have ns: "slice 1 new_SimpleSlicer = Some (Inr [\<lparr>height = Fin 0, contours = [], infill = []\<rparr>])"
    by (simp add: new_slice)
  have "storage [\<lparr>height = Fin 0, contours = [], infill = []\<rparr>] \<le> 1" using u ns by blast
  ultimately show ?thesis using a b c d f s ns by (simp add: cube4_storage new_fields)
qed

text \<open>
  The claim as it was stated fails on the cube with layer height \<open>2 / 9\<close> (the double
  0.2222222222222222): \<^verbatim>\<open>slice\<close> returns 45 layers where
  \<open>floor ((maxZ - minZ) / h) + 1\<close> is 46, both in exact arithmetic and when the quotient is
  computed in doubles, and the layer of index 5 is not at height \<open>minZ + 5 * h\<close>, because
  the repeated addition rounds at each step.
\<close>

theorem slice_layers_counterexample:
  "step_ok (layerHeight cube29) \<and>
   layerHeight cube29 = Fin (2001599834386887 / 9007199254740992) \<and>
   getBoundingBox cube29 = [Fin (- 5), Fin (- 5), Fin (- 5), Fin 5, Fin 5, Fin 5] \<and>
   (\<exists>layers. slice 2205 cube29 = Some (Inr layers) \<and> length layers = 45 \<and>
      height (layers ! 5) = Fin (- (4378499637721315 / 1125899906842624))) \<and>
   spec_layer_count (- 5) 5 (2001599834386887 / 9007199254740992) = 46 \<and>
   ddiv (dsub (Fin 5) (Fin (- 5))) (layerHeight cube29) = Fin 45 \<and>
   nat \<lfloor>45 :: real\<rfloor> + 1 = 46 \<and>
   spec_layer_height (- 5) (2001599834386887 / 9007199254740992) 5
     = - (35027997101770525 / 9007199254740992) \<and>
   dadd (Fin (- 5)) (dmul (Fin 5) (layerHeight cube29))
     = Fin (- (8756999275442631 / 2251799813685248))"
proof -
  have a: "step_ok (layerHeight cube29)" by (simp add: cube29_fields)
  obtain layers where l: "slice 2205 cube29 = Some (Inr layers)" "length layers = 45"
    using cube29_slice [of 2205] by auto
  have "height (layers ! 5) = plane cube29 5"
    using slice_layer_Some(1) [OF slice_nth(1) [OF l(1), of 5]] l(2) by simp
  then have h5: "height (layers ! 5) = Fin (- (4378499637721315 / 1125899906842624))"
    by (simp only: cube29_plane5)
  have c: "spec_layer_count (- 5) 5 (2001599834386887 / 9007199254740992) = 46"
    by (simp add: spec_layer_count_def)
  have d: "ddiv (dsub (Fin 5) (Fin (- 5))) (layerHeight cube29) = Fin 45"
    by (simp add: cube29_fields dsub_def rnd_eval)
  have e: "nat \<lfloor>45 :: real\<rfloor> + 1 = 46" by simp
  have f: "spec_layer_height (- 5) (2001599834386887 / 9007199254740992) 5
     = - (35027997101770525 / 9007199254740992)"
    by (simp add: spec_layer_height_def)
  have g: "dadd (Fin (- 5)) (dmul (Fin 5) (layerHeight cube29))
     = Fin (- (8756999275442631 / 2251799813685248))"
    by (simp add: cube29_fields rnd_eval)
  have "\<exists>layers. slice 2205 cube29 = Some (Inr layers) \<and> length layers = 45 \<and>
      height (layers ! 5) = Fin (- (4378499637721315 / 1125899906842624))"
    using l h5 by blast
  then show ?thesis using a c d e f g by (simp add: cube29_fields cube29_bbox)
qed

text \<open>
  C2.  For every triangle without a NaN coordinate and every plane height \<open>z\<close>, the scan
  treats the triangle as a candidate exactly when one of its three edges (v1-v2, v2-v3,
  v3-v1) has endpoint Z values that bracket \<open>z\<close> inclusively, in either orientation of the
  edge; the contour of the layer holds one intersection point for each candidate, in the
  order of the triangles.
\<close>

theorem scan_candidates:
  assumes "mesh_num (triangles s)"
  shows "(\<forall>t\<in>set (triangles s). crosses t z \<longleftrightarrow> candidate t z) \<and>
    scan (triangles s) z [] =
      map (\<lambda>t. calculateIntersection t z) (filter (\<lambda>t. candidate t z) (triangles s)) \<and>
    (\<forall>layer. slice_layer s z = Some layer \<longrightarrow>
       concat (contours layer) =
         map (\<lambda>t. calculateIntersection t z) (filter (\<lambda>t. candidate t z) (triangles s)))"
proof -
  have c: "\<forall>t\<in>set (triangles s). crosses t z \<longleftrightarrow> candidate t z"
    using mesh_num_tri [OF assms] crosses_candidate by blast
  then have f: "filter (\<lambda>t. crosses t z) (triangles s) = filter (\<lambda>t. candidate t z) (triangles s)"
    by (intro filter_cong) auto
  have s: "scan (triangles s) z [] =
      map (\<lambda>t. calculateIntersection t z) (filter (\<lambda>t. candidate t z) (triangles s))"
    by (simp add: scan_eq f)
  have "concat (contours layer) = scan (triangles s) z []" if "slice_layer s z = Some layer" for layer
    using slice_layer_Some(2,3) [OF that] by (cases "scan (triangles s) z [] = []") simp_all
  with c s show ?thesis by simp
qed

theorem scan_candidates_witness:
  "mesh_num (triangles cube) \<and>
   length (scan (triangles cube) (Fin (- 1)) []) = 8 \<and>
   length (filter (\<lambda>t. candidate t (Fin (- 1))) (triangles cube)) = 8"
proof -
  have c: "mesh_num (triangles cube)" by (simp add: cube_fields cube_num)
  have "length (filter (\<lambda>t. candidate t (Fin (- 1))) (triangles cube)) = 8"
    by (simp add: cube_fields cube_triangles_def corner_def candidate_def brackets_def)
  then show ?thesis using scan_candidates [OF c, of "Fin (- 1)"] c by simp
qed

text \<open>
  C3.  The infill that \<^verbatim>\<open>generateInfill\<close> returns is a sequence of two-point segments, each
  from \<open>(x, minY, z)\<close> to \<open>(x, maxY, z)\<close> with the Y extent of the bounding box of the whole
  mesh, at the X values \<open>x\<^sub>0 = minX\<close>, \<open>x\<^sub>k\<^sub>+\<^sub>1 = x\<^sub>k + 2.0 / (infillDensity / 100)\<close>, one
  segment for each \<open>x\<^sub>k \<le> maxX\<close> up to the first X value above \<open>maxX\<close>; it is a function of
  the bounding box, \<open>infillDensity\<close> and \<open>z\<close> only, not of the contour; it is the infill of
  every layer of \<^verbatim>\<open>slice\<close> that has a contour; and it is returned whenever the coordinates
  are finite of magnitude at most \<open>2 ^ 22\<close> and the density is in \<open>(0, 100]\<close>.
\<close>

theorem generateInfill_lines:
  "infill_x s 0 = getBoundingBox s ! 0 \<and>
   (\<forall>k. infill_x s (Suc k) =
      dadd (infill_x s k) (ddiv (lit 2) (ddiv (infillDensity s) (lit 100)))) \<and>
   (\<forall>lines. generateInfill s contour z = Some lines \<longrightarrow>
      (\<exists>n. lines = map (\<lambda>k. [Vector3 (infill_x s k) (getBoundingBox s ! 1) z,
                               Vector3 (infill_x s k) (getBoundingBox s ! 4) z]) [0..<n] \<and>
           (\<forall>k<n. dle (infill_x s k) (getBoundingBox s ! 3)) \<and>
           \<not> dle (infill_x s n) (getBoundingBox s ! 3))) \<and>
   generateInfill s contour' z = generateInfill s contour z \<and>
   (getBoundingBox s' = getBoundingBox s \<and> infillDensity s' = infillDensity s \<longrightarrow>
      generateInfill s' contour' z = generateInfill s contour z) \<and>
   (\<forall>layers layer. slice mem s = Some (Inr layers) \<and> layer \<in> set layers \<and>
        contours layer \<noteq> [] \<longrightarrow>
      generateInfill s contour (height layer) = Some (infill layer)) \<and>
   (mesh_within (2 ^ 22) (triangles s) \<and> density_ok (infillDensity s) \<longrightarrow>
      (\<exists>lines. generateInfill s contour z = Some lines))"
proof -
  have 1: "infill_x s 0 = getBoundingBox s ! 0" by (simp add: infill_x_def)
  have 2: "infill_x s (Suc k) =
      dadd (infill_x s k) (ddiv (lit 2) (ddiv (infillDensity s) (lit 100)))" for k
    by (simp add: infill_x_def infill_step_def)
  have 3: "\<exists>n. lines = map (\<lambda>k. [Vector3 (infill_x s k) (getBoundingBox s ! 1) z,
                               Vector3 (infill_x s k) (getBoundingBox s ! 4) z]) [0..<n] \<and>
           (\<forall>k<n. dle (infill_x s k) (getBoundingBox s ! 3)) \<and>
           \<not> dle (infill_x s n) (getBoundingBox s ! 3)"
    if "generateInfill s contour z = Some lines" for lines
    using generateInfill_Some [OF that]
    by (auto simp: exits_def infill_x_def infill_line_def)
  have 4: "generateInfill s' contour' z = generateInfill s contour z"
    if "getBoundingBox s' = getBoundingBox s" "infillDensity s' = infillDensity s" for s'
    using that by (simp add: generateInfill_def)
  have 5: "generateInfill s contour (height layer) = Some (infill layer)"
    if l: "slice mem s = Some (Inr layers)" "layer \<in> set layers" "contours layer \<noteq> []"
    for layers layer
  proof -
    obtain k where k: "k < length layers" "layer = layers ! k"
      using l(2) by (auto simp: in_set_conv_nth)
    note f = slice_layer_Some [OF slice_nth(1) [OF l(1) k(1), folded k(2)]]
    have "scan (triangles s) (plane s k) [] \<noteq> []" using f(2) l(3) by blast
    from f(3) [OF this] have "generateInfill s (scan (triangles s) (plane s k) []) (plane s k)
        = Some (infill layer)" by simp
    then show ?thesis by (simp add: f(1) generateInfill_def)
  qed
  have 6: "\<exists>lines. generateInfill s contour z = Some lines"
    if "mesh_within (2 ^ 22) (triangles s)" "density_ok (infillDensity s)"
    using generateInfill_returns [OF that] .
  from 1 2 3 4 [of s] 4 5 6 show ?thesis by blast
qed

theorem generateInfill_lines_witness:
  "mesh_within (2 ^ 22) (triangles cube4) \<and> density_ok (infillDensity cube4) \<and>
   slice 117 cube4 = Some (Inr cube4_layers) \<and> cube4_layer1 \<in> set cube4_layers \<and>
   contours cube4_layer1 \<noteq> [] \<and>
   getBoundingBox cube = getBoundingBox cube4 \<and> infillDensity cube = infillDensity cube4 \<and>
   generateInfill cube [] (Fin (- 1)) =
     Some [[Vector3 (Fin (- 5)) (Fin (- 5)) (Fin (- 1)), Vector3 (Fin (- 5)) (Fin 5) (Fin (- 1))],
           [Vector3 (Fin 5) (Fin (- 5)) (Fin (- 1)), Vector3 (Fin 5) (Fin 5) (Fin (- 1))]] \<and>
   infill_x cube4 0 = Fin (- 5) \<and> infill_x cube4 1 = Fin 5 \<and> infill_x cube4 2 = Fin 15"
proof -
  have a: "mesh_within (2 ^ 22) (triangles cube4)" "density_ok (infillDensity cube4)"
    unfolding cube4_fields by (rule cube_within) simp
  have b: "cube4_layer1 \<in> set cube4_layers" "contours cube4_layer1 \<noteq> []"
    by (simp_all add: cube4_layers_def cube4_layer1_def)
  have c: "getBoundingBox cube = getBoundingBox cube4" "infillDensity cube = infillDensity cube4"
    by (simp_all add: cube4_bbox cube_bbox [OF cube_fields(1)] cube4_fields cube_fields)
  have h: "height cube4_layer1 = Fin (- 1)"
    "infill cube4_layer1 =
      [[Vector3 (Fin (- 5)) (Fin (- 5)) (Fin (- 1)), Vector3 (Fin (- 5)) (Fin 5) (Fin (- 1))],
       [Vector3 (Fin 5) (Fin (- 5)) (Fin (- 1)), Vector3 (Fin 5) (Fin 5) (Fin (- 1))]]"
    by (simp_all add: cube4_layer1_def)
  have s: "slice 117 cube4 = Some (Inr cube4_layers)" by (simp add: cube4_slice)
  note t = generateInfill_lines [of cube4 "[]" "Fin (- 1)" "[]" cube 117]
  have "generateInfill cube4 [] (height cube4_layer1) = Some (infill cube4_layer1)"
    using t s b by blast
  moreover have "generateInfill cube [] (Fin (- 1)) = generateInfill cube4 [] (Fin (- 1))"
    using t c by blast
  moreover have "infill_x cube4 0 = Fin (- 5)" "infill_x cube4 1 = Fin 5" "infill_x cube4 2 = Fin 15"
    by (simp_all add: infill_x_def infill_step_def cube4_bbox cube4_fields numeral_2_eq_2 rnd_eval)
  ultimately show ?thesis using a b c by (simp add: h s)
qed

text \<open>
  C4 (as amended).  Within one \<^verbatim>\<open>generateGCode\<close> call that returns, the values of the
  accumulator written after \<^verbatim>\<open>" E"\<close> are the running totals, from 0, of the increments of
  the toolpath in order: the double nearest to 0.1 for each point of a contour after its
  first and the double nearest to 0.05 for each infill line of at least two points, the
  accumulator being carried from contour to contour and from layer to layer and the
  additions being those of doubles; it is local to the call, so the totals start from 0
  in every call.  On a heap of at most \<open>2 ^ 50\<close> doubles these values are finite, positive
  and strictly increasing.  In the text they appear in the default format of the
  stream, six significant digits: the numbers printed never decrease, and they are not
  strictly increasing.
\<close>

theorem extrusion_values:
  assumes "generateGCode show_double mem s = Some (Inr text)"
  shows "\<exists>layers toks.
    slice mem s = Some (Inr layers) \<and> gcode_stream mem s = Some (Inr toks) \<and>
    text = render show_double toks \<and>
    e_values toks = running (Fin 0) (extrusion_increments layers) \<and>
    (mem \<le> 2 ^ 50 \<longrightarrow>
       (\<exists>es. e_values toks = map Fin es \<and> sorted_wrt (<) es \<and> (\<forall>e\<in>set es. 0 < e) \<and>
          map show_double (e_values toks) = map show_pos es \<and> sorted (map shown es)))"
proof -
  from assms obtain toks where t: "gcode_stream mem s = Some (Inr toks)"
    "text = render show_double toks"
    by (cases "gcode_stream mem s") (auto simp: generateGCode_def map_sum_def split: sum.splits)
  from gcode_stream_Inr [OF t(1)] obtain layers
    where l: "slice mem s = Some (Inr layers)" "layers \<noteq> []" by blast
  from gcode_stream_Some [OF l] t(1)
  have e: "e_values toks = running (Fin 0) (extrusion_increments layers)" by auto
  have "\<exists>es. e_values toks = map Fin es \<and> sorted_wrt (<) es \<and> (\<forall>e\<in>set es. 0 < e) \<and>
          map show_double (e_values toks) = map show_pos es \<and> sorted (map shown es)"
    if m: "mem \<le> 2 ^ 50"
  proof -
    have "length (extrusion_increments layers) \<le> storage layers"
      by (rule length_extrusion_increments)
    also have "\<dots> \<le> mem" using slice_Some [OF l(1)] by simp
    finally have "0 + length (extrusion_increments layers) \<le> 2 ^ 50" using m by simp
    from running_finite [OF extrusion_increments_set _ _ this, of 0] obtain es where es:
      "e_values toks = map Fin es" "sorted_wrt (<) es" "\<forall>e\<in>set es. 0 < e"
      unfolding e by auto
    have "map show_double (e_values toks) = map show_pos es"
      unfolding es(1) using es(3) by (induction es) auto
    moreover have "sorted_wrt (\<lambda>a b. shown a \<le> shown b) es"
      using es(2)
    proof (rule sorted_wrt_mono_rel [rotated])
      fix a b assume "a \<in> set es" "b \<in> set es" "a < b"
      then show "shown a \<le> shown b" using es(3) by (intro shown_mono) simp_all
    qed
    then have "sorted (map shown es)" by (simp add: sorted_wrt_map)
    ultimately show ?thesis using es by blast
  qed
  with l(1) t e show ?thesis by blast
qed

theorem extrusion_values_witness:
  "(117 :: nat) \<le> 2 ^ 50 \<and>
   (\<exists>text toks. generateGCode show_double 117 cube4 = Some (Inr text) \<and>
      gcode_stream 117 cube4 = Some (Inr toks) \<and> text = render show_double toks \<and>
      e_values toks = running (Fin 0) (extrusion_increments cube4_layers) \<and>
      length (e_values toks) = 29 \<and>
      sorted_wrt dlt (e_values toks) \<and>
      take 3 (e_values toks) =
        [Fin (3602879701896397 / 36028797018963968),
         Fin (3602879701896397 / 18014398509481984),
         Fin (1351079888211149 / 4503599627370496)] \<and>
      map show_double (take 3 (e_values toks)) = [''0.1'', ''0.2'', ''0.3''])"
proof -
  have s: "slice 117 cube4 = Some (Inr cube4_layers)" by (simp add: cube4_slice)
  have ne: "cube4_layers \<noteq> []" by (simp add: cube4_layers_def)
  from gcode_stream_Some [OF s ne] obtain toks
    where t: "gcode_stream 117 cube4 = Some (Inr toks)" by blast
  then have g: "generateGCode show_double 117 cube4 = Some (Inr (render show_double toks))"
    by (simp add: generateGCode_def)
  have n: "length (extrusion_increments cube4_layers) = 29"
    by (simp add: extrusion_increments_def layer_increments_def contour_increments_def
        line_increments_def cube4_layers_def cube4_layer0_def cube4_layer1_def cube4_layer2_def)
  have k: "take 3 (running (Fin 0) (extrusion_increments cube4_layers)) =
       [Fin (3602879701896397 / 36028797018963968),
        Fin (3602879701896397 / 18014398509481984),
        Fin (1351079888211149 / 4503599627370496)]"
    by (simp add: extrusion_increments_def layer_increments_def contour_increments_def
        line_increments_def cube4_layers_def cube4_layer0_def numeral_eq_Suc rnd_eval)
  have p: "map show_double
       [Fin (3602879701896397 / 36028797018963968),
        Fin (3602879701896397 / 18014398509481984),
        Fin (1351079888211149 / 4503599627370496)] = [''0.1'', ''0.2'', ''0.3'']"
    by (simp add: show_eval)
  from extrusion_values [OF g] t s obtain es where es:
    "e_values toks = running (Fin 0) (extrusion_increments cube4_layers)"
    "e_values toks = map Fin es" "sorted_wrt (<) es"
    by auto
  have "sorted_wrt dlt (map Fin es)" using es(3) by (simp add: sorted_wrt_map)
  then have "sorted_wrt dlt (e_values toks)" by (simp only: es(2))
  then show ?thesis using t g n k p es(1) by (simp add: length_running del: show_double.simps)
qed

text \<open>
  The claim as it was stated fails on the cube with layer height \<open>1 / 4096\<close> and infill
  density 100.  The 40961 layers have six infill lines each, and when the last of them
  are written the accumulator is above \<open>10 ^ 4\<close>, where six significant digits leave one
  decimal place for steps of 0.05: among the last four extrusion values of the output,
  two neighbours that differ as doubles are written with the same text, so the E values
  that appear in the output are not strictly increasing.
\<close>

theorem extrusion_values_counterexample:
  "triangles cube_fine = triangles cube \<and>
   layerHeight cube_fine = Fin (1 / 4096) \<and> infillDensity cube_fine = Fin 100 \<and>
   (\<exists>text toks i.
      generateGCode show_double (2 ^ 22) cube_fine = Some (Inr text) \<and>
      gcode_stream (2 ^ 22) cube_fine = Some (Inr toks) \<and> text = render show_double toks \<and>
      length (e_values toks) - 4 \<le> i \<and> Suc i < length (e_values toks) \<and>
      dlt (e_values toks ! i) (e_values toks ! Suc i) \<and>
      show_double (e_values toks ! i) = show_double (e_values toks ! Suc i))"
proof -
  obtain layers where l: "slice (2 ^ 22) cube_fine = Some (Inr layers)" "length layers = 40961"
    using cube_fine_slice [of "2 ^ 22"] by auto
  then have "layers \<noteq> []" by auto
  from gcode_stream_Some [OF l(1) this] obtain toks
    where t: "gcode_stream (2 ^ 22) cube_fine = Some (Inr toks)" by blast
  then have g: "generateGCode show_double (2 ^ 22) cube_fine = Some (Inr (render show_double toks))"
    by (simp add: generateGCode_def)
  from cube_fine_fields_repeat [OF t] obtain i where
    "length (e_values toks) - 4 \<le> i" "Suc i < length (e_values toks)"
    "dlt (e_values toks ! i) (e_values toks ! Suc i)"
    "show_double (e_values toks ! i) = show_double (e_values toks ! Suc i)" by blast
  with t g have "\<exists>text toks i.
      generateGCode show_double (2 ^ 22) cube_fine = Some (Inr text) \<and>
      gcode_stream (2 ^ 22) cube_fine = Some (Inr toks) \<and> text = render show_double toks \<and>
      length (e_values toks) - 4 \<le> i \<and> Suc i < length (e_values toks) \<and>
      dlt (e_values toks ! i) (e_values toks ! Suc i) \<and>
      show_double (e_values toks ! i) = show_double (e_values toks ! Suc i)" by blast
  then show ?thesis by (simp add: cube_fine_fields cube_fields del: show_double.simps)
qed

text \<open>
  C5.  For every mesh none of whose coordinates is NaN, \<^verbatim>\<open>getBoundingBox\<close> returns six
  scalars \<open>[minX, minY, minZ, maxX, maxY, maxZ]\<close> with min \<open>\<le>\<close> max on each axis that
  cover every vertex of every triangle; for a mesh with no triangles it returns exactly
  \<open>[0, 0, 0, 0, 0, 0]\<close>.
\<close>

theorem getBoundingBox_covers:
  assumes "mesh_num (triangles s)"
  shows "\<exists>minX minY minZ maxX maxY maxZ.
    getBoundingBox s = [minX, minY, minZ, maxX, maxY, maxZ] \<and>
    dle minX maxX \<and> dle minY maxY \<and> dle minZ maxZ \<and>
    (\<forall>t\<in>set (triangles s). \<forall>p\<in>set [v1 t, v2 t, v3 t].
        dle minX (vx p) \<and> dle (vx p) maxX \<and>
        dle minY (vy p) \<and> dle (vy p) maxY \<and>
        dle minZ (vz p) \<and> dle (vz p) maxZ) \<and>
    (triangles s = [] \<longrightarrow>
        getBoundingBox s = [Fin 0, Fin 0, Fin 0, Fin 0, Fin 0, Fin 0])"
proof (cases "triangles s")
  case Nil
  then show ?thesis by (simp add: getBoundingBox_Nil)
next
  case (Cons t0 ts)
  have n: "\<forall>t\<in>set (t0 # ts). tri_num vx t" "\<forall>t\<in>set (t0 # ts). tri_num vy t"
    "\<forall>t\<in>set (t0 # ts). tri_num vz t"
    using mesh_num_tri [OF assms] unfolding Cons by blast+
  note x = axis_props [OF n(1)] and y = axis_props [OF n(2)] and z = axis_props [OF n(3)]
  show ?thesis
    unfolding getBoundingBox_Cons [OF Cons] Cons
    using x(3,4) y(3,4) z(3,4) by (intro exI conjI ballI impI refl) (simp_all; blast)+
qed

theorem getBoundingBox_covers_witness:
  "mesh_num (triangles cube) \<and> mesh_num (triangles new_SimpleSlicer) \<and>
   getBoundingBox cube = [Fin (- 5), Fin (- 5), Fin (- 5), Fin 5, Fin 5, Fin 5] \<and>
   getBoundingBox new_SimpleSlicer = [Fin 0, Fin 0, Fin 0, Fin 0, Fin 0, Fin 0]"
proof -
  have c: "mesh_num (triangles cube)" by (simp add: cube_fields cube_num)
  have e: "mesh_num (triangles new_SimpleSlicer)"
    by (simp add: new_SimpleSlicer_def mesh_num_def)
  have t: "triangles new_SimpleSlicer = []" by (simp add: new_SimpleSlicer_def)
  have "getBoundingBox new_SimpleSlicer = [Fin 0, Fin 0, Fin 0, Fin 0, Fin 0, Fin 0]"
    using getBoundingBox_covers [OF e] t by blast
  moreover have "getBoundingBox cube = [Fin (- 5), Fin (- 5), Fin (- 5), Fin 5, Fin 5, Fin 5]"
    using getBoundingBox_covers [OF c] by (simp add: cube_bbox [OF cube_fields(1)])
  ultimately show ?thesis using c e by simp
qed

text \<open>
  C6.  For every layer produced by \<^verbatim>\<open>slice\<close>, the height is a number (not NaN), every point
  of every contour has a Z coordinate equal to the height, and every infill line has two
  endpoints, both with a Z coordinate equal to the height.
\<close>

theorem layer_points_at_height:
  assumes "slice mem s = Some (Inr layers)"
  shows "\<forall>layer\<in>set layers.
    is_num (height layer) \<and>
    (\<forall>c\<in>set (contours layer). \<forall>p\<in>set c. vz p = height layer) \<and>
    (\<forall>l\<in>set (infill layer). length l = 2 \<and> (\<forall>p\<in>set l. vz p = height layer))"
proof
  fix layer assume "layer \<in> set layers"
  then obtain k where k: "k < length layers" "layer = layers ! k"
    by (auto simp: in_set_conv_nth)
  note l = slice_nth [OF assms k(1), folded k(2)]
  note f = slice_layer_Some [OF l(1)]
  have h: "is_num (height layer)"
    using l(2) dle_is_num [of "plane s k"] by (simp add: f(1))
  have c: "\<forall>c\<in>set (contours layer). \<forall>p\<in>set c. vz p = height layer"
    using f(2,3) scan_vz [of "triangles s" "plane s k"]
    by (cases "scan (triangles s) (plane s k) [] = []") (simp_all add: f(1))
  have i: "\<forall>l\<in>set (infill layer). length l = 2 \<and> (\<forall>p\<in>set l. vz p = height layer)"
  proof (cases "scan (triangles s) (plane s k) [] = []")
    case True
    then show ?thesis using f(2) by simp
  next
    case False
    from generateInfill_Some [OF f(3) [OF False, THEN conjunct2]]
    show ?thesis by (auto simp: infill_line_def f(1))
  qed
  from h c i show "is_num (height layer) \<and>
    (\<forall>c\<in>set (contours layer). \<forall>p\<in>set c. vz p = height layer) \<and>
    (\<forall>l\<in>set (infill layer). length l = 2 \<and> (\<forall>p\<in>set l. vz p = height layer))" by simp
qed

theorem layer_points_at_height_witness:
  "slice 117 cube4 = Some (Inr cube4_layers) \<and>
   list_all (\<lambda>layer. is_num (height layer) \<and>
      list_all (\<lambda>c. list_all (\<lambda>p. vz p = height layer) c) (contours layer) \<and>
      list_all (\<lambda>l. length l = 2 \<and> list_all (\<lambda>p. vz p = height layer) l) (infill layer))
     cube4_layers"
proof -
  have s: "slice 117 cube4 = Some (Inr cube4_layers)" by (simp add: cube4_slice)
  show ?thesis using layer_points_at_height [OF s] by (simp add: s list_all_iff)
qed

text \<open>
  C7.  \<^verbatim>\<open>generateGCode\<close> is deterministic: two slicers with the same triangle list, the same
  \<open>layerHeight\<close> and the same \<open>infillDensity\<close> give the same result, under the same number
  format of the output stream and on the same heap: both return the same text, or
  neither returns.  The same holds for \<^verbatim>\<open>getLayerInfo\<close>.  The size of the heap decides
  only whether the call returns: two calls that return give the same text.
\<close>

theorem generateGCode_deterministic:
  assumes "triangles s = triangles s'" "layerHeight s = layerHeight s'"
    "infillDensity s = infillDensity s'"
  shows "generateGCode fmt mem s = generateGCode fmt mem s' \<and>
    getLayerInfo fmt mem s = getLayerInfo fmt mem s' \<and>
    (\<forall>mem' text text'. generateGCode fmt mem s = Some (Inr text) \<and>
        generateGCode fmt mem' s' = Some (Inr text') \<longrightarrow> text = text')"
proof -
  have eq: "s = s'" using assms by (cases s; cases s') simp
  have "out = out'"
    if "generateGCode fmt mem s = Some (Inr out)" "generateGCode fmt mem' s = Some (Inr out')"
    for mem' out out'
  proof -
    from that(1) obtain toks where t: "gcode_stream mem s = Some (Inr toks)"
      "out = render fmt toks"
      by (cases "gcode_stream mem s") (auto simp: generateGCode_def map_sum_def split: sum.splits)
    from that(2) obtain toks' where t': "gcode_stream mem' s = Some (Inr toks')"
      "out' = render fmt toks'"
      by (cases "gcode_stream mem' s") (auto simp: generateGCode_def map_sum_def split: sum.splits)
    show ?thesis using gcode_stream_unique [OF t(1) t'(1)] t(2) t'(2) by simp
  qed
  then show ?thesis unfolding eq by blast
qed

theorem generateGCode_deterministic_witness:
  "triangles cube4 = triangles (snd (parseSTL ''solid'' (setLayerHeight (Fin 4) new_SimpleSlicer))) \<and>
   layerHeight cube4 = layerHeight (snd (parseSTL ''solid'' (setLayerHeight (Fin 4) new_SimpleSlicer))) \<and>
   infillDensity cube4 = infillDensity (snd (parseSTL ''solid'' (setLayerHeight (Fin 4) new_SimpleSlicer))) \<and>
   generateGCode (\<lambda>d. ''?'') 117 cube4 =
     generateGCode (\<lambda>d. ''?'') 117 (snd (parseSTL ''solid'' (setLayerHeight (Fin 4) new_SimpleSlicer))) \<and>
   generateGCode (\<lambda>d. ''?'') 117 cube4 \<noteq> None \<and>
   generateGCode (\<lambda>d. ''?'') 117 cube4 \<noteq> Some (Inl Bad_alloc)"
proof -
  define s' where "s' = snd (parseSTL ''solid'' (setLayerHeight (Fin 4) new_SimpleSlicer))"
  have a: "triangles cube4 = triangles s'" "layerHeight cube4 = layerHeight s'"
    "infillDensity cube4 = infillDensity s'"
    by (simp_all add: s'_def cube4_fields parseSTL_fields setLayerHeight_def new_fields)
  have "cube4_layers \<noteq> []" by (simp add: cube4_layers_def)
  then have "generateGCode (\<lambda>d. ''?'') 117 cube4 \<noteq> None"
    "generateGCode (\<lambda>d. ''?'') 117 cube4 \<noteq> Some (Inl Bad_alloc)"
    by (simp_all add: generateGCode_def gcode_stream_def cube4_slice)
  then show ?thesis
    using generateGCode_deterministic [OF a, of "\<lambda>d. ''?''" 117] a unfolding s'_def by simp
qed

text \<open>
  C8.  Under the same configuration and mesh, when \<^verbatim>\<open>slice\<close> returns a layer sequence,
  \<^verbatim>\<open>getLayerInfo\<close> writes its length after \<^verbatim>\<open>"totalLayers": \<close>, and \<^verbatim>\<open>generateGCode\<close>, which
  runs the same \<^verbatim>\<open>slice\<close>, writes one \<^verbatim>\<open>; Layer\<close> comment for each layer of that sequence:
  the two numbers agree.  When \<^verbatim>\<open>slice\<close> does not return, neither method does, and when
  it ends in an allocation failure, so do both.
\<close>

theorem totalLayers_agrees:
  "(\<forall>layers. slice mem s = Some (Inr layers) \<longrightarrow>
      (\<exists>info. info_stream mem s = Some (Inr info) \<and>
          totalLayers info = Some (N (length layers))) \<and>
      (layers \<noteq> [] \<longrightarrow>
         (\<exists>toks. gcode_stream mem s = Some (Inr toks) \<and> layer_comments toks = length layers))) \<and>
   (slice mem s = None \<longrightarrow> info_stream mem s = None \<and> gcode_stream mem s = None) \<and>
   (\<forall>e. slice mem s = Some (Inl e) \<longrightarrow>
      info_stream mem s = Some (Inl e) \<and> gcode_stream mem s = Some (Inl e))"
proof -
  have 1: "\<exists>info. info_stream mem s = Some (Inr info) \<and>
      totalLayers info = Some (N (length layers))"
    if "slice mem s = Some (Inr layers)" for layers
    using that by (simp add: info_stream_def totalLayers_def)
  have 2: "\<exists>toks. gcode_stream mem s = Some (Inr toks) \<and> layer_comments toks = length layers"
    if "slice mem s = Some (Inr layers)" "layers \<noteq> []" for layers
    using gcode_stream_Some [OF that] by blast
  have 3: "info_stream mem s = None \<and> gcode_stream mem s = None" if "slice mem s = None"
    using that by (simp add: info_stream_def gcode_stream_def)
  have 4: "info_stream mem s = Some (Inl e) \<and> gcode_stream mem s = Some (Inl e)"
    if "slice mem s = Some (Inl e)" for e
    using that by (simp add: info_stream_def gcode_stream_def)
  from 1 2 3 4 show ?thesis by blast
qed

theorem totalLayers_agrees_witness:
  "slice 117 cube4 = Some (Inr cube4_layers) \<and> cube4_layers \<noteq> [] \<and> length cube4_layers = 3 \<and>
   (\<exists>info. info_stream 117 cube4 = Some (Inr info) \<and> totalLayers info = Some (N 3)) \<and>
   (\<exists>toks. gcode_stream 117 cube4 = Some (Inr toks) \<and> layer_comments toks = 3) \<and>
   slice 117 cube_neg = None \<and> info_stream 117 cube_neg = None \<and>
   gcode_stream 117 cube_neg = None \<and>
   slice 116 cube4 = Some (Inl Bad_alloc) \<and> info_stream 116 cube4 = Some (Inl Bad_alloc) \<and>
   gcode_stream 116 cube4 = Some (Inl Bad_alloc)"
proof -
  have a: "cube4_layers \<noteq> []" "length cube4_layers = 3" by (simp_all add: cube4_layers_def)
  have s: "slice 117 cube4 = Some (Inr cube4_layers)" "slice 116 cube4 = Some (Inl Bad_alloc)"
    by (simp_all add: cube4_slice)
  note n = cube_neg_slice [of 117]
  show ?thesis
    using totalLayers_agrees [of 117 cube4] totalLayers_agrees [of 117 cube_neg]
      totalLayers_agrees [of 116 cube4] s a n
    by simp
qed

text \<open>
  C9.  For every input string, \<^verbatim>\<open>parseSTL\<close> returns true and replaces the triangle list by
  the twelve triangles of the cube of side 10 centred at the origin, whatever the input
  is; the configuration is kept; after the call \<^verbatim>\<open>getBoundingBox\<close> returns exactly
  \<open>[-5, -5, -5, 5, 5, 5]\<close>.
\<close>

theorem parseSTL_installs_cube:
  "fst (parseSTL stlData s) = True \<and>
   triangles (snd (parseSTL stlData s)) = cube_triangles \<and>
   length (triangles (snd (parseSTL stlData s))) = 12 \<and>
   layerHeight (snd (parseSTL stlData s)) = layerHeight s \<and>
   infillDensity (snd (parseSTL stlData s)) = infillDensity s \<and>
   getBoundingBox (snd (parseSTL stlData s)) = [Fin (- 5), Fin (- 5), Fin (- 5), Fin 5, Fin 5, Fin 5]"
proof -
  have "length cube_triangles = 12" by (simp add: cube_triangles_def)
  then show ?thesis
    by (simp add: parseSTL_fields cube_bbox [OF parseSTL_fields(2)])
qed

text \<open>
  C10 (as amended).  For every mesh without a NaN coordinate (the empty one included) and
  every configuration, a layer sequence that \<^verbatim>\<open>slice\<close> returns is not empty:
  \<^verbatim>\<open>getBoundingBox\<close> yields \<open>minZ \<le> maxZ\<close>, so the loop runs at least once; hence
  \<^verbatim>\<open>generateGCode\<close> never reads \<^verbatim>\<open>layers.back()\<close> of an empty vector.  \<^verbatim>\<open>slice\<close> need not
  return.  When the coordinates are finite and of magnitude at most \<open>2 ^ 22\<close>, the layer
  height is at least \<open>2 powi - 30\<close> and the infill density is in \<open>(0, 100]\<close>, it ends: it
  returns the layers of the planes, at least one, when the heap can hold them, and ends
  in an allocation failure when it cannot.
\<close>

theorem slice_never_empty:
  assumes "mesh_num (triangles s)"
  shows "(\<forall>layers. slice mem s = Some (Inr layers) \<longrightarrow> layers \<noteq> []) \<and>
    gcode_stream mem s \<noteq> Some (Inl Back_of_empty_vector) \<and>
    generateGCode fmt mem s \<noteq> Some (Inl Back_of_empty_vector) \<and>
    (mesh_within (2 ^ 22) (triangles s) \<and> step_ok (layerHeight s) \<and>
       density_ok (infillDensity s) \<longrightarrow>
     (\<exists>layers. layers \<noteq> [] \<and>
        (\<forall>m. slice m s =
           (if storage layers \<le> m then Some (Inr layers) else Some (Inl Bad_alloc)))))"
proof -
  have 1: "layers \<noteq> []" if "slice mem s = Some (Inr layers)" for mem layers
    using slice_nonempty [OF assms that] .
  have 2: "gcode_stream mem s \<noteq> Some (Inl Back_of_empty_vector)"
  proof
    assume g: "gcode_stream mem s = Some (Inl Back_of_empty_vector)"
    show False
    proof (cases "slice mem s")
      case None
      with g show False by (simp add: gcode_stream_def)
    next
      case (Some r)
      show False
      proof (cases r)
        case (Inl e)
        with g Some have "slice mem s = Some (Inl Back_of_empty_vector)"
          by (simp add: gcode_stream_def)
        from slice_Inl [OF this] show False by simp
      next
        case (Inr layers)
        with g Some 1 [of mem layers] show False by (simp add: gcode_stream_def)
      qed
    qed
  qed
  then have 3: "generateGCode fmt mem s \<noteq> Some (Inl Back_of_empty_vector)"
    by (cases "gcode_stream mem s") (auto simp: generateGCode_def map_sum_def split: sum.splits)
  have 4: "\<exists>layers. layers \<noteq> [] \<and>
        (\<forall>m. slice m s =
           (if storage layers \<le> m then Some (Inr layers) else Some (Inl Bad_alloc)))"
    if m: "mesh_within (2 ^ 22) (triangles s)" "step_ok (layerHeight s)"
      "density_ok (infillDensity s)"
  proof -
    from slice_returns [OF m] obtain layers where l:
      "\<forall>m. slice m s = (if storage layers \<le> m then Some (Inr layers) else Some (Inl Bad_alloc))"
      by blast
    then have "slice (storage layers) s = Some (Inr layers)" by simp
    from 1 [OF this] l show ?thesis by blast
  qed
  from 1 2 3 4 show ?thesis by blast
qed

theorem slice_never_empty_witness:
  "mesh_num (triangles cube4) \<and> mesh_within (2 ^ 22) (triangles cube4) \<and>
   step_ok (layerHeight cube4) \<and> density_ok (infillDensity cube4) \<and>
   slice 117 cube4 = Some (Inr cube4_layers) \<and> cube4_layers \<noteq> [] \<and>
   gcode_stream 117 cube4 \<noteq> Some (Inl Back_of_empty_vector) \<and>
   slice 116 cube4 = Some (Inl Bad_alloc)"
proof -
  have a: "mesh_within (2 ^ 22) (triangles cube4)" "step_ok (layerHeight cube4)"
    "density_ok (infillDensity cube4)"
    unfolding cube4_fields by (rule cube_within) simp_all
  have n: "mesh_num (triangles cube4)" using a(1) by (rule mesh_within_num)
  have s: "slice 117 cube4 = Some (Inr cube4_layers)" "slice 116 cube4 = Some (Inl Bad_alloc)"
    by (simp_all add: cube4_slice)
  note t = slice_never_empty [OF n, of 117 "\<lambda>d. []"]
  have "cube4_layers \<noteq> []" using t s(1) by blast
  moreover have "gcode_stream 117 cube4 \<noteq> Some (Inl Back_of_empty_vector)" using t by blast
  moreover have "\<exists>layers. layers \<noteq> [] \<and> (\<forall>m. slice m cube4 =
      (if storage layers \<le> m then Some (Inr layers) else Some (Inl Bad_alloc)))"
    using t a by blast
  ultimately show ?thesis using a n s by simp
qed

text \<open>
  The claim as it was stated fails on the cube with the default layer height 0.2 and
  infill density \<open>-1\<close>: the step of the infill loop is negative, the loop over X never
  passes \<open>maxX\<close>, and \<^verbatim>\<open>slice\<close> does not return a layer sequence, whatever the heap.
\<close>

theorem slice_never_empty_counterexample:
  "mesh_num (triangles cube_neg) \<and> dlt (Fin 0) (layerHeight cube_neg) \<and>
   infillDensity cube_neg = Fin (- 1) \<and> (\<forall>mem. slice mem cube_neg = None)"
  by (simp add: cube_neg_fields cube_neg_slice cube_num)

end
